theory Spec2Isabelle
  imports Main
begin

section \<open>Python strings\<close>

text \<open>
  A Python \<^verbatim>\<open>str\<close> is modelled as a \<^typ>\<open>string\<close> whose characters are the code points
  below 256. \<^verbatim>\<open>str.strip()\<close> and \<^verbatim>\<open>str.split()\<close> without arguments use
  \<^verbatim>\<open>str.isspace\<close>; below 256 that is TAB, LF, VT, FF, CR, FS, GS, RS, US, SPACE, NEL and NBSP.
\<close>

definition is_space :: "char \<Rightarrow> bool" where
  "is_space c = (c \<in> set [CHR 0x09, CHR 0x0A, CHR 0x0B, CHR 0x0C, CHR 0x0D,
                            CHR 0x1C, CHR 0x1D, CHR 0x1E, CHR 0x1F, CHR 0x20,
                            CHR 0x85, CHR 0xA0])"

text \<open>\<^verbatim>\<open>s.strip(chars)\<close>: drop the characters satisfying \<open>p\<close> from both ends.\<close>

definition strip_chars :: "(char \<Rightarrow> bool) \<Rightarrow> string \<Rightarrow> string" where
  "strip_chars p s = rev (dropWhile p (rev (dropWhile p s)))"

definition strip :: "string \<Rightarrow> string" where
  "strip s = strip_chars is_space s"

text \<open>\<^verbatim>\<open>s.split()\<close>: the maximal runs of characters that are not whitespace.\<close>

fun split_from :: "string \<Rightarrow> string \<Rightarrow> string list" where
  "split_from cur [] = (if cur = [] then [] else [cur])"
| "split_from cur (c # cs) =
     (if is_space c then (if cur = [] then split_from [] cs else cur # split_from [] cs)
      else split_from (cur @ [c]) cs)"

definition split :: "string \<Rightarrow> string list" where
  "split s = split_from [] s"

text \<open>
  \<^verbatim>\<open>s.lower()\<close>. Only A to Z are mapped. Both uses in the program compare the result with
  ASCII words (the tier names, the fence tag \<^verbatim>\<open>json\<close>), and no other code point lower-cases
  to one of their letters, so the comparisons come out as in Python.
\<close>

definition lower_char :: "char \<Rightarrow> char" where
  "lower_char c =
     (case map_of (zip ''ABCDEFGHIJKLMNOPQRSTUVWXYZ'' ''abcdefghijklmnopqrstuvwxyz'') c of
        Some d \<Rightarrow> d
      | None \<Rightarrow> c)"

definition lower :: "string \<Rightarrow> string" where
  "lower s = map lower_char s"

text \<open>\<^verbatim>\<open>s.startswith(p)\<close> and the slice \<^verbatim>\<open>s[i:j]\<close> for \<open>0 \<le> i\<close>, \<open>0 \<le> j\<close>.\<close>

definition startswith :: "string \<Rightarrow> string \<Rightarrow> bool" where
  "startswith s p = (take (length p) s = p)"

definition slice :: "string \<Rightarrow> nat \<Rightarrow> nat \<Rightarrow> string" where
  "slice s i j = take (j - i) (drop i s)"

text \<open>\<^verbatim>\<open>sep.join(parts)\<close>.\<close>

fun join :: "string \<Rightarrow> string list \<Rightarrow> string" where
  "join sep [] = []"
| "join sep [p] = p"
| "join sep (p # q # ps) = p @ sep @ join sep (q # ps)"

section \<open>Clause segmenter: \<^verbatim>\<open>ChatGPTSentenceStreamer\<close> (main.py)\<close>

text \<open>
  \<^verbatim>\<open>_pop_ready_clauses(text)\<close> walks \<^verbatim>\<open>enumerate(text)\<close> with the list \<open>clauses\<close> and the
  index \<open>start\<close>; at a character of \<^verbatim>\<open>".?!"\<close> it cuts \<^verbatim>\<open>text[start : idx + 1].strip()\<close>,
  appends it when it is not empty, and moves \<open>start\<close> behind the character.
\<close>

definition is_terminal :: "char \<Rightarrow> bool" where
  "is_terminal c = (c \<in> set ''.?!'')"

fun pop_scan :: "string \<Rightarrow> (nat \<times> char) list \<Rightarrow> string list \<Rightarrow> nat \<Rightarrow> string list \<times> nat" where
  "pop_scan text [] clauses start = (clauses, start)"
| "pop_scan text ((idx, ch) # rest) clauses start =
     (if is_terminal ch then
        (let clause = strip (slice text start (idx + 1))
         in pop_scan text rest (if clause \<noteq> [] then clauses @ [clause] else clauses) (idx + 1))
      else pop_scan text rest clauses start)"

definition pop_ready_clauses :: "string \<Rightarrow> string list \<times> string" where
  "pop_ready_clauses text =
     (case pop_scan text (enumerate 0 text) [] 0 of
        (clauses, start) \<Rightarrow> (clauses, drop start text))"

text \<open>
  \<^verbatim>\<open>_generate_clauses\<close>: the loop over the fragments of \<^verbatim>\<open>_token_stream()\<close>, with the local
  \<open>buffer\<close> and the attribute \<^verbatim>\<open>self.word_count\<close> as explicit state. The result is the list of
  clauses yielded, in order, and the value of \<^verbatim>\<open>self.word_count\<close> when the generator is
  exhausted. After the loop the rest of the buffer is yielded, trimmed, unless it is blank.
\<close>

fun generate_loop :: "string list \<Rightarrow> string \<Rightarrow> nat \<Rightarrow> string list \<times> nat" where
  "generate_loop [] buffer word_count =
     (if strip buffer \<noteq> [] then [strip buffer] else [], word_count)"
| "generate_loop (token # tokens) buffer word_count =
     (let buffer1 = buffer @ token;
          word_count1 = length (split buffer1)
      in case pop_ready_clauses buffer1 of
           (ready, buffer2) \<Rightarrow>
             (case generate_loop tokens buffer2 word_count1 of
                (later, final_count) \<Rightarrow> (ready @ later, final_count)))"

definition generate_clauses :: "string list \<Rightarrow> string list \<times> nat" where
  "generate_clauses tokens = generate_loop tokens [] 0"

text \<open>The values \<^verbatim>\<open>self.word_count\<close> takes, one after each fragment.\<close>

fun word_counts :: "string list \<Rightarrow> string \<Rightarrow> nat list" where
  "word_counts [] buffer = []"
| "word_counts (token # tokens) buffer =
     length (split (buffer @ token)) # word_counts tokens (snd (pop_ready_clauses (buffer @ token)))"

section \<open>Confidence resolver\<close>

text \<open>
  \<^verbatim>\<open>BehaviorGenerator.CONFIDENCE_BEHAVIORS\<close> (plan/behavior\_generator.py): tier name to
  (verbal prefix, gesture, gesture expression, LED colour).
\<close>

definition CONFIDENCE_BEHAVIORS :: "string \<rightharpoonup> string \<times> string \<times> string \<times> string" where
  "CONFIDENCE_BEHAVIORS = map_of
     [(''low'', (''I'm not entirely sure, but'', ''slight head shake'', ''Oh'', ''yellow'')),
      (''medium'', (''Let me think'', ''look straight'', ''Thoughtful'', ''blue'')),
      (''high'', (''I'm confident that'', ''nod head'', ''BigSmile'', ''green''))]"

text \<open>\<^verbatim>\<open>confidence in CONFIDENCE_BEHAVIORS\<close>.\<close>

definition known_tier :: "string \<Rightarrow> bool" where
  "known_tier confidence = (CONFIDENCE_BEHAVIORS confidence \<noteq> None)"

definition get_legacy_behavior :: "string \<Rightarrow> string \<times> string" where
  "get_legacy_behavior confidence =
     (case CONFIDENCE_BEHAVIORS confidence of
        Some (prefix, gesture, expression, led) \<Rightarrow> (prefix, gesture)
      | None \<Rightarrow> (''Let me think'', ''look straight''))"

definition get_confidence_behavior :: "string \<Rightarrow> string \<times> string" where
  "get_confidence_behavior confidence =
     get_legacy_behavior (if known_tier confidence then confidence else ''medium'')"

definition estimate_confidence_from_words :: "int \<Rightarrow> string" where
  "estimate_confidence_from_words word_count =
     (if word_count < 25 then ''low'' else if word_count < 60 then ''medium'' else ''high'')"

text \<open>
  \<^verbatim>\<open>resolve_confidence(hint, word_count)\<close>, with \<^verbatim>\<open>hint: Optional[str]\<close>. The test
  \<^verbatim>\<open>if hint\<close> fails for \<^verbatim>\<open>None\<close> and for the empty string.
\<close>

definition resolve_confidence :: "string option \<Rightarrow> int \<Rightarrow> string" where
  "resolve_confidence hint word_count =
     (case hint of
        None \<Rightarrow> estimate_confidence_from_words word_count
      | Some h \<Rightarrow>
          if h \<noteq> [] \<and> known_tier (lower (strip h)) then lower (strip h)
          else estimate_confidence_from_words word_count)"

text \<open>The same function of main.py, over its own two-field table.\<close>

definition main_CONFIDENCE_BEHAVIORS :: "string \<rightharpoonup> string \<times> string" where
  "main_CONFIDENCE_BEHAVIORS = map_of
     [(''low'', (''I'm not entirely sure, but '', ''gentle head shake'')),
      (''medium'', (''It seems that '', ''steady gaze'')),
      (''high'', (''I'm confident that '', ''affirmative nod''))]"

definition main_known_tier :: "string \<Rightarrow> bool" where
  "main_known_tier key = (main_CONFIDENCE_BEHAVIORS key \<noteq> None)"

definition main_resolve_confidence :: "string option \<Rightarrow> int \<Rightarrow> string" where
  "main_resolve_confidence hint word_count =
     (case hint of
        None \<Rightarrow> estimate_confidence_from_words word_count
      | Some h \<Rightarrow>
          if h \<noteq> [] then
            (let key = lower (strip h)
             in if main_known_tier key then key
                else estimate_confidence_from_words word_count)
          else estimate_confidence_from_words word_count)"

text \<open>
  The resolver as the specification words it: a hint that is one of the tier names is returned
  as it is, anything else goes by the word count.
\<close>

definition resolve_reference :: "string option \<Rightarrow> int \<Rightarrow> string" where
  "resolve_reference hint word_count =
     (case hint of
        None \<Rightarrow> estimate_confidence_from_words word_count
      | Some h \<Rightarrow>
          if h \<in> set [''low'', ''medium'', ''high''] then h
          else estimate_confidence_from_words word_count)"

section \<open>Decision service: \<^verbatim>\<open>ControllerModel\<close> (main.py)\<close>

text \<open>
  The values \<^verbatim>\<open>json.loads\<close> returns. Numbers are kept as integers: nothing below looks
  inside a parsed value beyond asking whether it is a dict.
\<close>

datatype json =
    JNull
  | JBool bool
  | JNumber int
  | JString string
  | JArray "json list"
  | JObject "(string \<times> json) list"

datatype error =
    NotValidJSON string
  | TransportError

definition is_backtick :: "char \<Rightarrow> bool" where
  "is_backtick c = (c = CHR 0x60)"

text \<open>
  Lines 173 to 178 of \<^verbatim>\<open>_parse_json\<close>: trim, and when the text starts with three backticks
  strip every backtick from both ends and drop a leading \<^verbatim>\<open>json\<close> tag (in any case).
\<close>

definition strip_fences :: "string \<Rightarrow> string" where
  "strip_fences body =
     (let candidate = strip body
      in if startswith candidate ''```'' then
           (let candidate1 = strip_chars is_backtick candidate
            in if startswith (lower candidate1) ''json'' then drop 4 candidate1 else candidate1)
         else candidate)"

text \<open>
  \<^verbatim>\<open>json.loads\<close> belongs to Python's standard library, not to the repository: it is the
  parameter \<open>loads\<close>, with \<open>None\<close> for \<^verbatim>\<open>json.JSONDecodeError\<close>.
\<close>

definition parse_json :: "(string \<Rightarrow> json option) \<Rightarrow> string \<Rightarrow> error + json" where
  "parse_json loads body =
     (let candidate = strip_fences body
      in case loads candidate of
           None \<Rightarrow> Inl (NotValidJSON candidate)
         | Some v \<Rightarrow> Inr v)"

text \<open>
  \<^verbatim>\<open>decide\<close>: the transport either fails or delivers the message content, which is trimmed
  and parsed.
\<close>

definition decide :: "(string \<Rightarrow> json option) \<Rightarrow> error + string \<Rightarrow> error + json" where
  "decide loads response =
     (case response of
        Inl e \<Rightarrow> Inl e
      | Inr content \<Rightarrow> parse_json loads (strip content))"

text \<open>
  \<^verbatim>\<open>json.loads\<close> on two literal bodies, for evaluating \<open>decide\<close> at them: Python parses
  \<^verbatim>\<open>[]\<close> to the empty list and \<^verbatim>\<open>{}\<close> to the empty dict. Every other text is left
  unparsed here.
\<close>

definition loads_literals :: "string \<Rightarrow> json option" where
  "loads_literals s =
     (if s = ''[]'' then Some (JArray [])
      else if s = ''{}'' then Some (JObject [])
      else None)"

definition is_object :: "json \<Rightarrow> bool" where
  "is_object v = (case v of JObject kvs \<Rightarrow> True | _ \<Rightarrow> False)"

definition is_parse_error :: "error + json \<Rightarrow> bool" where
  "is_parse_error r = (case r of Inl (NotValidJSON c) \<Rightarrow> True | _ \<Rightarrow> False)"

text \<open>A body is a valid JSON object when \<open>loads\<close> parses it to a dict.\<close>

definition valid_json_object :: "(string \<Rightarrow> json option) \<Rightarrow> string \<Rightarrow> bool" where
  "valid_json_object loads s = (case loads s of Some v \<Rightarrow> is_object v | None \<Rightarrow> False)"

section \<open>Turn orchestrator: output events and the direct answer\<close>

text \<open>
  One constructor for each call whose effect leaves the orchestrator: the \<^verbatim>\<open>cprint\<close> call
  sites with their arguments, the actuation call \<^verbatim>\<open>request_speak_text\<close>, the behaviour
  generator's calls, the pause, and the operations on \<^verbatim>\<open>thinking_window_done\<close>.
\<close>

datatype event =
    PrintUser string
  | PrintDirect string string
  | PrintRobot string
  | PrintThinking string
  | PrintHandoff string string
  | PrintGesture string
  | Speak string
  | ThinkingBehavior nat
  | SetThinkingMode bool
  | Pause
  | BarrierClear
  | BarrierSet

text \<open>
  The turn plan as \<^verbatim>\<open>run\<close> reads it from the decision: \<^verbatim>\<open>bool(get("need_thinking"))\<close>,
  \<^verbatim>\<open>get("confidence")\<close>, the normalised notes, \<^verbatim>\<open>get("reasoning_hint")\<close> and
  \<^verbatim>\<open>get("answer")\<close>, where \<open>None\<close> stands for a missing key and for \<^verbatim>\<open>null\<close>.
\<close>

record turn_plan =
  need_thinking :: bool
  confidence :: "string option"
  thinking_notes :: "string list"
  reasoning_hint :: string
  answer :: "string option"

definition APOLOGY :: string where
  "APOLOGY = ''I'm sorry, I can't provide an answer at the moment.''"

definition main_APOLOGY :: string where
  "main_APOLOGY = ''Sorry, I don't have a confident answer yet.''"

text \<open>\<^verbatim>\<open>(self.decision.get("answer") or "").strip()\<close>, then the apology when that is empty.\<close>

definition direct_answer_text :: "string \<Rightarrow> string option \<Rightarrow> string" where
  "direct_answer_text apology a =
     (let stripped = strip (case a of None \<Rightarrow> [] | Some t \<Rightarrow> t)
      in if stripped = [] then apology else stripped)"

definition direct_confidence :: "string option \<Rightarrow> string" where
  "direct_confidence confidence_hint =
     (case confidence_hint of
        None \<Rightarrow> ''medium''
      | Some h \<Rightarrow> if known_tier h then h else ''medium'')"

text \<open>
  \<^verbatim>\<open>Orchestrator._respond_directly\<close> (plan/orchestrator.py). \<open>has_client\<close> says whether
  \<^verbatim>\<open>self.furhat_client\<close> is set (the constructor's default is \<^verbatim>\<open>None\<close>). The result is
  the events in order and the new \<^verbatim>\<open>self.current_answer_text\<close>.
\<close>

definition respond_directly :: "bool \<Rightarrow> turn_plan \<Rightarrow> string option \<Rightarrow> event list \<times> string" where
  "respond_directly has_client decision confidence_hint =
     (let answer_text = direct_answer_text APOLOGY (answer decision);
          confidence = direct_confidence confidence_hint
      in case get_confidence_behavior confidence of
           (prefix, gesture_description) \<Rightarrow>
             (let full_answer = strip (prefix @ '' '' @ answer_text)
              in ([PrintDirect confidence gesture_description, PrintRobot full_answer]
                  @ (if has_client then [Speak full_answer] else []),
                  full_answer)))"

text \<open>
  \<^verbatim>\<open>Orchestrator._respond_directly\<close> of main.py: it only prints, and prints the answer
  without the prefix.
\<close>

definition main_respond_directly :: "turn_plan \<Rightarrow> string option \<Rightarrow> event list" where
  "main_respond_directly decision confidence_hint =
     (let answer_text = direct_answer_text main_APOLOGY (answer decision);
          confidence =
            (case confidence_hint of
               None \<Rightarrow> ''medium''
             | Some h \<Rightarrow> if main_known_tier h then h else ''medium'')
      in case main_CONFIDENCE_BEHAVIORS confidence of
           Some (prefix, gesture) \<Rightarrow>
             [PrintDirect confidence gesture, PrintRobot answer_text, PrintGesture gesture]
         | None \<Rightarrow> [])"

section \<open>Thinking relay (plan/orchestrator.py)\<close>

definition MAX_THINKING_CUES :: nat where
  "MAX_THINKING_CUES = 12"

text \<open>Times are in milliseconds: \<^verbatim>\<open>THINKING_DURATION_SECONDS = 10.0\<close>, \<^verbatim>\<open>THINKING_PAUSE_SECONDS = 0.5\<close>.\<close>

definition THINKING_DURATION_MS :: nat where
  "THINKING_DURATION_MS = 10000"

definition THINKING_PAUSE_MS :: nat where
  "THINKING_PAUSE_MS = 500"

definition THINKING_FALLBACK_LINES :: "string list" where
  "THINKING_FALLBACK_LINES =
     [''Let me think this through.'',
      ''I'm weighing a couple of options.'',
      ''Checking what I already know.'',
      ''Almost ready with an answer.'',
      ''Considering how this fits your question.'']"

text \<open>
  \<^verbatim>\<open>_is_meaningful_thinking_cue\<close>. The source strips \<^verbatim>\<open>.!?\<close> and the ellipsis U+2026; the
  ellipsis is not a code point below 256, so no character of a modelled string equals it.
\<close>

definition is_meaningful_thinking_cue :: "string \<Rightarrow> bool" where
  "is_meaningful_thinking_cue cue = (strip_chars (\<lambda>c. c \<in> set ''.!?'') (strip cue) \<noteq> [])"

text \<open>
  What one \<^verbatim>\<open>__anext__\<close> of a segmenter's \<^verbatim>\<open>stream()\<close> delivers: a clause, or the failure the
  channel carried (also a cancellation while waiting). The end of the list is the end of the
  stream.
\<close>

datatype fetch = Clause string | Raises

text \<open>
  The surroundings of one run of the relay: for each fetch how long the relay waited for it,
  how long the wait for the end of the stream takes, and for the call \<^verbatim>\<open>emit_line(text, index)\<close>
  how long it takes and whether it raises (a failing actuation call, a cancellation), and
  whether the pause after the cue counted \<open>n\<close> is cancelled.
\<close>

record relay_env =
  fetches :: "(nat \<times> fetch) list"
  end_wait :: nat
  emit_ms :: "nat \<Rightarrow> nat"
  emit_raises :: "nat \<Rightarrow> bool"
  pause_cancelled :: "nat \<Rightarrow> bool"

text \<open>The locals of \<^verbatim>\<open>_relay_thinking\<close>, the clock \<^verbatim>\<open>loop.time()\<close> and the events so far.\<close>

record relay =
  clock :: nat
  emitted :: nat
  fallback_idx :: nat
  events :: "event list"

text \<open>\<^verbatim>\<open>emit_line(text, index)\<close> with \<open>index = emitted\<close>; \<open>False\<close> when it raises.\<close>

definition emit_line :: "bool \<Rightarrow> relay_env \<Rightarrow> string \<Rightarrow> relay \<Rightarrow> bool \<times> relay" where
  "emit_line has_client env cue r =
     (let r1 = r\<lparr>clock := clock r + emit_ms env (emitted r),
                 events := events r @ [PrintThinking cue] @ (if has_client then [Speak cue] else [])\<rparr>
      in if emit_raises env (emitted r) then (False, r1)
         else (True, r1\<lparr>events := events r1 @ [ThinkingBehavior (emitted r)]\<rparr>))"

text \<open>
  What follows \<^verbatim>\<open>await emit_line(...)\<close> in both loops: count the cue, test the deadline and the
  cap, pause. The result says whether the loop goes on (\<open>Next\<close>), breaks, or an exception
  leaves it.
\<close>

datatype flow = Next | Break | Raise

definition after_emit :: "relay_env \<Rightarrow> nat \<Rightarrow> relay \<Rightarrow> flow \<times> relay" where
  "after_emit env deadline r =
     (let r1 = r\<lparr>emitted := emitted r + 1\<rparr>
      in if deadline \<le> clock r1 \<or> MAX_THINKING_CUES \<le> emitted r1 then (Break, r1)
         else if pause_cancelled env (emitted r1) then (Raise, r1\<lparr>events := events r1 @ [Pause]\<rparr>)
         else (Next, r1\<lparr>clock := clock r1 + THINKING_PAUSE_MS, events := events r1 @ [Pause]\<rparr>))"

text \<open>The \<^verbatim>\<open>async for cue in thinking_model.stream()\<close> loop; \<open>True\<close> when an exception leaves it.\<close>

fun stream_loop :: "bool \<Rightarrow> relay_env \<Rightarrow> nat \<Rightarrow> (nat \<times> fetch) list \<Rightarrow> relay \<Rightarrow> bool \<times> relay" where
  "stream_loop has_client env deadline [] r = (False, r\<lparr>clock := clock r + end_wait env\<rparr>)"
| "stream_loop has_client env deadline ((wait, Raises) # rest) r = (True, r\<lparr>clock := clock r + wait\<rparr>)"
| "stream_loop has_client env deadline ((wait, Clause cue) # rest) r =
     (let r1 = r\<lparr>clock := clock r + wait\<rparr>
      in if deadline \<le> clock r1 \<or> MAX_THINKING_CUES \<le> emitted r1 then (False, r1)
         else if \<not> is_meaningful_thinking_cue cue then stream_loop has_client env deadline rest r1
         else (case emit_line has_client env cue r1 of
                 (False, r2) \<Rightarrow> (True, r2)
               | (True, r2) \<Rightarrow>
                   (case after_emit env deadline r2 of
                      (Next, r3) \<Rightarrow> stream_loop has_client env deadline rest r3
                    | (Break, r3) \<Rightarrow> (False, r3)
                    | (Raise, r3) \<Rightarrow> (True, r3))))"

text \<open>The \<^verbatim>\<open>while loop.time() < deadline and emitted < MAX_THINKING_CUES\<close> loop of filler lines.\<close>

function filler_loop :: "bool \<Rightarrow> relay_env \<Rightarrow> nat \<Rightarrow> relay \<Rightarrow> bool \<times> relay" where
  "filler_loop has_client env deadline r =
     (if clock r < deadline \<and> emitted r < MAX_THINKING_CUES then
        (let filler = THINKING_FALLBACK_LINES ! (fallback_idx r mod length THINKING_FALLBACK_LINES);
             r1 = r\<lparr>fallback_idx := fallback_idx r + 1\<rparr>
         in case emit_line has_client env filler r1 of
              (False, r2) \<Rightarrow> (True, r2)
            | (True, r2) \<Rightarrow>
                (case after_emit env deadline r2 of
                   (Next, r3) \<Rightarrow> filler_loop has_client env deadline r3
                 | (Break, r3) \<Rightarrow> (False, r3)
                 | (Raise, r3) \<Rightarrow> (True, r3)))
      else (False, r))"
  by pat_completeness auto
termination
  by (relation "measure (\<lambda>(has_client, env, deadline, r). MAX_THINKING_CUES - emitted r)")
     (auto simp: emit_line_def after_emit_def Let_def split: if_splits)

text \<open>
  \<^verbatim>\<open>_relay_thinking\<close>, started at time \<open>start\<close>: the two loops inside \<^verbatim>\<open>try\<close>, then the
  \<^verbatim>\<open>finally\<close> block. The result says whether the relay ends with an exception.
\<close>

definition relay_thinking :: "bool \<Rightarrow> relay_env \<Rightarrow> nat \<Rightarrow> bool \<times> relay" where
  "relay_thinking has_client env start =
     (let deadline = start + THINKING_DURATION_MS;
          r0 = \<lparr>clock = start, emitted = 0, fallback_idx = 0, events = []\<rparr>
      in case stream_loop has_client env deadline (fetches env) r0 of
           (raised, r1) \<Rightarrow>
             (case (if raised then (True, r1) else filler_loop has_client env deadline r1) of
                (raised2, r2) \<Rightarrow>
                  (raised2, r2\<lparr>events := events r2 @ [SetThinkingMode False, BarrierSet]\<rparr>)))"

text \<open>The cues of a run: the lines \<^verbatim>\<open>emit_line\<close> prints, model cues and fillers alike.\<close>

definition is_cue :: "event \<Rightarrow> bool" where
  "is_cue e = (case e of PrintThinking cue \<Rightarrow> True | _ \<Rightarrow> False)"

definition cues :: "event list \<Rightarrow> nat" where
  "cues es = length (filter is_cue es)"

text \<open>No single wait for the stream and no call of \<^verbatim>\<open>emit_line\<close> takes longer than \<open>D\<close>.\<close>

definition latency_bounded :: "relay_env \<Rightarrow> nat \<Rightarrow> bool" where
  "latency_bounded env D =
     (list_all (\<lambda>p. fst p \<le> D) (fetches env) \<and> end_wait env \<le> D \<and> (\<forall>i. emit_ms env i \<le> D))"

text \<open>
  Sample surroundings: a stream that delivers at once, one whose first cue takes 20 seconds,
  and one that fails after its first cue.
\<close>

definition prompt_env :: relay_env where
  "prompt_env = \<lparr>fetches = [(0, Clause ''Comparing options...''), (0, Clause ''...'')],
     end_wait = 0, emit_ms = (\<lambda>i. 0), emit_raises = (\<lambda>i. False), pause_cancelled = (\<lambda>i. False)\<rparr>"

definition slow_env :: relay_env where
  "slow_env = \<lparr>fetches = [(20000, Clause ''Comparing options...'')],
     end_wait = 0, emit_ms = (\<lambda>i. 0), emit_raises = (\<lambda>i. False), pause_cancelled = (\<lambda>i. False)\<rparr>"

definition failing_env :: relay_env where
  "failing_env = \<lparr>fetches = [(100, Clause ''Comparing options...''), (200, Raises)],
     end_wait = 0, emit_ms = (\<lambda>i. 50), emit_raises = (\<lambda>i. False), pause_cancelled = (\<lambda>i. False)\<rparr>"

section \<open>Answer relay and the turn (plan/orchestrator.py)\<close>

text \<open>\<^verbatim>\<open>f"{prefix} {text}".strip() if prefix else text\<close>.\<close>

definition with_prefix :: "string \<Rightarrow> string \<Rightarrow> string" where
  "with_prefix prefix body = (if prefix \<noteq> [] then strip (prefix @ '' '' @ body) else body)"

text \<open>
  \<^verbatim>\<open>_relay_answer\<close> runs from one suspension point to the next. It is suspended either in
  \<^verbatim>\<open>async for\<close>, waiting for the next item of the answer stream (\<open>Fetching\<close>), or in
  \<^verbatim>\<open>await self.thinking_window_done.wait()\<close> with the first clause in hand (\<open>AtBarrier\<close>);
  it has returned, or an exception of the stream has left it (\<open>Failed\<close>).
\<close>

datatype answer_pc = Fetching | AtBarrier string | Returned | Failed

record answer_task =
  pc :: answer_pc
  pending :: "fetch list"
  first_clause :: bool
  prefix :: string
  gesture_description :: string
  full_answer_parts :: "string list"
  current_answer_text :: string

text \<open>
  One step of the answer relay, given whether \<^verbatim>\<open>thinking_window_done\<close> is set and the value
  \<^verbatim>\<open>reasoning_model.word_count\<close> has when the relay reads it: the new state and the events of
  the step. A relay waiting at a barrier that is not set stays where it is.
\<close>

definition answer_step ::
  "bool \<Rightarrow> string option \<Rightarrow> nat \<Rightarrow> bool \<Rightarrow> answer_task \<Rightarrow> answer_task \<times> event list" where
  "answer_step has_client confidence_hint word_count barrier_set a =
     (case pc a of
        Fetching \<Rightarrow>
          (case pending a of
             [] \<Rightarrow>
               (let full_answer = with_prefix (prefix a) (join '' '' (full_answer_parts a))
                in (a\<lparr>pc := Returned,
                       current_answer_text :=
                         (if full_answer_parts a \<noteq> [] then full_answer else current_answer_text a)\<rparr>,
                    (if full_answer_parts a \<noteq> [] \<and> has_client then [Speak full_answer] else [])
                    @ (if gesture_description a \<noteq> [] then [PrintGesture (gesture_description a)]
                       else [])))
           | Raises # rest \<Rightarrow> (a\<lparr>pc := Failed, pending := rest\<rparr>, [])
           | Clause clause # rest \<Rightarrow>
               if first_clause a then (a\<lparr>pc := AtBarrier clause, pending := rest\<rparr>, [])
               else (a\<lparr>pending := rest, full_answer_parts := full_answer_parts a @ [clause]\<rparr>,
                     [PrintRobot (with_prefix (prefix a) clause)]))
      | AtBarrier clause \<Rightarrow>
          if barrier_set then
            (let confidence_level = resolve_confidence confidence_hint (int word_count)
             in case get_confidence_behavior confidence_level of
                  (p, g) \<Rightarrow>
                    (a\<lparr>pc := Fetching, first_clause := False, prefix := p,
                        gesture_description := g,
                        full_answer_parts := full_answer_parts a @ [clause]\<rparr>,
                     [PrintHandoff confidence_level g, PrintRobot (with_prefix p clause)]))
          else (a, [])
      | Returned \<Rightarrow> (a, [])
      | Failed \<Rightarrow> (a, []))"

text \<open>
  The turn while both relays run. The two coroutines are tasks of one event loop, so their
  steps interleave; every event is recorded with the task that made it. The thinking relay
  does not read anything the answer relay writes, so its events are those of
  \<open>relay_thinking\<close>, made one after the other; the event \<open>BarrierSet\<close> sets the flag.
\<close>

datatype task = Turn | ThinkingRelay | AnswerRelay

record system =
  barrier :: bool
  thinking :: "event list"
  answer_relay :: answer_task
  out :: "(task \<times> event) list"

definition thinking_step :: "system \<Rightarrow> system" where
  "thinking_step s =
     (case thinking s of
        [] \<Rightarrow> s
      | e # es \<Rightarrow> s\<lparr>thinking := es, barrier := (barrier s \<or> e = BarrierSet),
                       out := out s @ [(ThinkingRelay, e)]\<rparr>)"

definition answer_relay_step :: "bool \<Rightarrow> string option \<Rightarrow> nat \<Rightarrow> system \<Rightarrow> system" where
  "answer_relay_step has_client confidence_hint word_count s =
     (case answer_step has_client confidence_hint word_count (barrier s) (answer_relay s) of
        (a, es) \<Rightarrow> s\<lparr>answer_relay := a, out := out s @ map (Pair AnswerRelay) es\<rparr>)"

text \<open>A schedule says which task makes the next step: \<open>True\<close> the thinking relay, \<open>False\<close> the answer relay.\<close>

fun exec :: "bool \<Rightarrow> string option \<Rightarrow> nat \<Rightarrow> bool list \<Rightarrow> system \<Rightarrow> system" where
  "exec has_client confidence_hint word_count [] s = s"
| "exec has_client confidence_hint word_count (b # bs) s =
     exec has_client confidence_hint word_count bs
       (if b then thinking_step s else answer_relay_step has_client confidence_hint word_count s)"

text \<open>What a turn meets outside the orchestrator.\<close>

record world =
  schedule :: "bool list"
  thinking_env :: relay_env
  start_time :: nat
  answer_fetches :: "fetch list"
  answer_word_count :: nat

definition initial_answer_task :: "fetch list \<Rightarrow> answer_task" where
  "initial_answer_task fs =
     \<lparr>pc = Fetching, pending = fs, first_clause = True, prefix = [], gesture_description = [],
      full_answer_parts = [], current_answer_text = []\<rparr>"

text \<open>
  \<^verbatim>\<open>Orchestrator.run\<close> after the decision: the events of the turn, in order. With a schedule
  that ends early the result is the turn up to that point.
\<close>

definition run :: "bool \<Rightarrow> string \<Rightarrow> turn_plan \<Rightarrow> world \<Rightarrow> (task \<times> event) list" where
  "run has_client question decision w =
     [(Turn, PrintUser question), (Turn, BarrierClear)]
     @ (if \<not> need_thinking decision then
          (Turn, BarrierSet)
          # map (Pair Turn) (fst (respond_directly has_client decision (confidence decision)))
        else
          (Turn, SetThinkingMode True)
          # out (exec has_client (confidence decision) (answer_word_count w) (schedule w)
                  \<lparr>barrier = False,
                   thinking = events (snd (relay_thinking has_client (thinking_env w) (start_time w))),
                   answer_relay = initial_answer_task (answer_fetches w),
                   out = []\<rparr>))"

text \<open>
  The order the barrier is for: every event of the answer relay comes after the thinking
  relay's \<open>BarrierSet\<close>. The flag says whether that event has been seen.
\<close>

fun answer_after_barrier :: "bool \<Rightarrow> (task \<times> event) list \<Rightarrow> bool" where
  "answer_after_barrier signalled [] = True"
| "answer_after_barrier signalled ((t, e) # rest) =
     (if t = ThinkingRelay \<and> e = BarrierSet then answer_after_barrier True rest
      else if t = AnswerRelay then signalled \<and> answer_after_barrier signalled rest
      else answer_after_barrier signalled rest)"

text \<open>The actuation calls and the thinking output of a turn.\<close>

definition speak_calls :: "(task \<times> event) list \<Rightarrow> string list" where
  "speak_calls tr = concat (map (\<lambda>(t, e). case e of Speak s \<Rightarrow> [s] | _ \<Rightarrow> []) tr)"

definition is_thinking_output :: "task \<times> event \<Rightarrow> bool" where
  "is_thinking_output te =
     (case te of
        (t, PrintThinking cue) \<Rightarrow> True
      | (t, ThinkingBehavior i) \<Rightarrow> True
      | (ThinkingRelay, e) \<Rightarrow> True
      | _ \<Rightarrow> False)"

text \<open>Sample surroundings for evaluating a turn.\<close>

definition sample_plan :: turn_plan where
  "sample_plan = \<lparr>need_thinking = True, confidence = None, thinking_notes = [],
     reasoning_hint = [], answer = None\<rparr>"

definition paris_plan :: turn_plan where
  "paris_plan = \<lparr>need_thinking = False, confidence = Some ''high'', thinking_notes = [],
     reasoning_hint = [], answer = Some ''Paris is the capital.''\<rparr>"

definition answer_first_world :: world where
  "answer_first_world = \<lparr>schedule = [False, False, True, True, True, False, True, True, True, False, False, False],
     thinking_env = failing_env, start_time = 0,
     answer_fetches = [Clause ''Start small.''], answer_word_count = 2\<rparr>"

text \<open>What holds of the turn after every step of either relay.\<close>

definition turn_inv :: "system \<Rightarrow> bool" where
  "turn_inv s =
     (answer_after_barrier False (out s)
      \<and> (barrier s \<longrightarrow> (ThinkingRelay, BarrierSet) \<in> set (out s))
      \<and> (\<not> first_clause (answer_relay s) \<longrightarrow> (ThinkingRelay, BarrierSet) \<in> set (out s))
      \<and> (first_clause (answer_relay s) \<longrightarrow>
            full_answer_parts (answer_relay s) = [] \<and> gesture_description (answer_relay s) = []))"

section \<open>Theorems\<close>

subsection \<open>Trimming\<close>

lemma filter_dropWhile_neg: "filter (\<lambda>c. \<not> p c) (dropWhile p s) = filter (\<lambda>c. \<not> p c) s"
  by (induction s) auto

lemma filter_strip_chars: "filter (\<lambda>c. \<not> p c) (strip_chars p s) = filter (\<lambda>c. \<not> p c) s"
proof -
  have "filter (\<lambda>c. \<not> p c) (strip_chars p s) = rev (filter (\<lambda>c. \<not> p c) (dropWhile p (rev (dropWhile p s))))"
    by (simp add: strip_chars_def rev_filter)
  also have "\<dots> = rev (filter (\<lambda>c. \<not> p c) (rev (dropWhile p s)))"
    by (simp only: filter_dropWhile_neg)
  also have "\<dots> = filter (\<lambda>c. \<not> p c) s"
    by (simp add: rev_filter filter_dropWhile_neg)
  finally show ?thesis .
qed

lemma strip_chars_fixed:
  assumes "s \<noteq> []" "\<not> p (hd s)" "\<not> p (last s)"
  shows "strip_chars p s = s"
  using assms by (cases s) (auto simp: strip_chars_def hd_rev dropWhile_eq_self_iff split: if_splits)

lemma strip_chars_ends:
  assumes "strip_chars p s \<noteq> []"
  shows "\<not> p (hd (strip_chars p s))" and "\<not> p (last (strip_chars p s))"
proof -
  let ?d = "dropWhile p s"
  let ?e = "dropWhile p (rev ?d)"
  from assms have e: "?e \<noteq> []" by (simp add: strip_chars_def)
  then have d: "?d \<noteq> []" by (metis dropWhile.simps(1) rev.simps(1))
  have "last (strip_chars p s) = hd ?e" using e by (simp add: strip_chars_def last_rev)
  then show "\<not> p (last (strip_chars p s))" using e hd_dropWhile by metis
  have "hd (strip_chars p s) = last ?e" using e by (simp add: strip_chars_def hd_rev)
  also have "\<dots> = last (rev ?d)" using e by (metis dropWhile_eq_Nil_conv dropWhile_last)
  also have "\<dots> = hd ?d" using d by (simp add: last_rev)
  finally show "\<not> p (hd (strip_chars p s))" using d hd_dropWhile by metis
qed

lemma strip_chars_Nil: "strip_chars p [] = []"
  by (simp add: strip_chars_def)

lemma strip_chars_idem: "strip_chars p (strip_chars p s) = strip_chars p s"
proof (cases "strip_chars p s = []")
  case True
  then show ?thesis by (simp add: strip_chars_Nil)
next
  case False
  from False strip_chars_ends[OF False] show ?thesis by (rule strip_chars_fixed)
qed

lemma strip_chars_keeps_last:
  assumes "s \<noteq> []" "\<not> p (last s)"
  shows "strip_chars p s \<noteq> []" and "last (strip_chars p s) = last s"
proof -
  have in_s: "last s \<in> set s" using assms by simp
  have d: "dropWhile p s \<noteq> []" using assms(2) in_s by (metis dropWhile_eq_Nil_conv)
  have l: "last (dropWhile p s) = last s" using in_s assms(2) by (rule dropWhile_last)
  have "hd (rev (dropWhile p s)) = last s" using d l by (metis hd_rev)
  then have r: "dropWhile p (rev (dropWhile p s)) = rev (dropWhile p s)"
    using assms(2) by (metis dropWhile_eq_self_iff)
  show "strip_chars p s \<noteq> []" using d r by (simp add: strip_chars_def)
  show "last (strip_chars p s) = last s" using d r l by (simp add: strip_chars_def)
qed

subsection \<open>Clause segmenter\<close>

text \<open>
  The scan cuts the text into pieces that each end at a terminal character; the clauses are
  the pieces trimmed, and what follows the last piece is the remainder.
\<close>

lemma pop_scan_pieces:
  "start \<le> length pre \<Longrightarrow>
   \<exists>pieces st. pop_scan (pre @ suf) (enumerate (length pre) suf) cl start
        = (cl @ filter (\<lambda>s. s \<noteq> []) (map strip pieces), st)
     \<and> st \<le> length (pre @ suf)
     \<and> concat pieces @ drop st (pre @ suf) = drop start (pre @ suf)
     \<and> list_all (\<lambda>p. p \<noteq> [] \<and> is_terminal (last p)) pieces"
proof (induction suf arbitrary: pre cl start)
  case Nil
  then show ?case by (intro exI[of _ "[]"] exI[of _ start]) simp
next
  case (Cons c cs)
  let ?text = "pre @ c # cs"
  have tx: "?text = (pre @ [c]) @ cs" by simp
  have en: "enumerate (length pre) (c # cs) = (length pre, c) # enumerate (length (pre @ [c])) cs"
    by simp
  show ?case
  proof (cases "is_terminal c")
    case False
    from Cons.prems have "start \<le> length (pre @ [c])" by simp
    from Cons.IH[OF this, of cl] obtain pieces st where
      "pop_scan ((pre @ [c]) @ cs) (enumerate (length (pre @ [c])) cs) cl start
        = (cl @ filter (\<lambda>s. s \<noteq> []) (map strip pieces), st)"
      "st \<le> length ((pre @ [c]) @ cs)"
      "concat pieces @ drop st ((pre @ [c]) @ cs) = drop start ((pre @ [c]) @ cs)"
      "list_all (\<lambda>p. p \<noteq> [] \<and> is_terminal (last p)) pieces" by blast
    with False show ?thesis unfolding en tx[symmetric]
      by (intro exI[of _ pieces] exI[of _ st]) simp
  next
    case True
    let ?x = "drop start pre @ [c]"
    let ?cl = "if strip ?x \<noteq> [] then cl @ [strip ?x] else cl"
    have sl: "slice ?text start (length pre + 1) = ?x"
      using Cons.prems by (simp add: slice_def)
    have "length (pre @ [c]) \<le> length (pre @ [c])" by simp
    from Cons.IH[OF this, of ?cl] obtain pieces st where
      1: "pop_scan ((pre @ [c]) @ cs) (enumerate (length (pre @ [c])) cs) ?cl (length (pre @ [c]))
        = (?cl @ filter (\<lambda>s. s \<noteq> []) (map strip pieces), st)"
      and 2: "st \<le> length ((pre @ [c]) @ cs)"
      and 3: "concat pieces @ drop st ((pre @ [c]) @ cs) = drop (length (pre @ [c])) ((pre @ [c]) @ cs)"
      and 4: "list_all (\<lambda>p. p \<noteq> [] \<and> is_terminal (last p)) pieces" by blast
    have 5: "drop start ?text = ?x @ cs" using Cons.prems by simp
    have 6: "concat pieces @ drop st ?text = cs" using 3 by simp
    show ?thesis unfolding en
      apply (intro exI[of _ "?x # pieces"] exI[of _ st])
      using True 1 2 4 5 6 sl by (simp add: Let_def)
  qed
qed


lemma pop_ready_clauses_pieces:
  "\<exists>pieces. fst (pop_ready_clauses body) = filter (\<lambda>s. s \<noteq> []) (map strip pieces)
     \<and> concat pieces @ snd (pop_ready_clauses body) = body
     \<and> list_all (\<lambda>p. p \<noteq> [] \<and> is_terminal (last p)) pieces"
  using pop_scan_pieces[of 0 "[]" body "[]"] by (auto simp: pop_ready_clauses_def)

lemma generate_loop_pieces:
  "\<exists>pieces. fst (generate_loop tokens buffer wc) = filter (\<lambda>s. s \<noteq> []) (map strip pieces)
     \<and> concat pieces = buffer @ concat tokens"
proof (induction tokens arbitrary: buffer wc)
  case Nil
  show ?case by (intro exI[of _ "[buffer]"]) simp
next
  case (Cons token tokens)
  obtain ps where ps: "fst (pop_ready_clauses (buffer @ token)) = filter (\<lambda>s. s \<noteq> []) (map strip ps)"
    "concat ps @ snd (pop_ready_clauses (buffer @ token)) = buffer @ token"
    using pop_ready_clauses_pieces by blast
  obtain qs where qs: "fst (generate_loop tokens (snd (pop_ready_clauses (buffer @ token)))
        (length (split (buffer @ token)))) = filter (\<lambda>s. s \<noteq> []) (map strip qs)"
    "concat qs = snd (pop_ready_clauses (buffer @ token)) @ concat tokens"
    using Cons.IH by blast
  have "concat (ps @ qs) = buffer @ concat (token # tokens)"
    using ps(2) qs(2) by (metis append.assoc concat.simps(2) concat_append)
  moreover have "fst (generate_loop (token # tokens) buffer wc) = filter (\<lambda>s. s \<noteq> []) (map strip (ps @ qs))"
    using ps(1) qs(1) by (simp add: Let_def case_prod_beta)
  ultimately show ?case by blast
qed

lemma nonspace_trimmed_pieces:
  "filter (\<lambda>c. \<not> is_space c) (concat (filter (\<lambda>s. s \<noteq> []) (map strip pieces)))
     = filter (\<lambda>c. \<not> is_space c) (concat pieces)"
proof (induction pieces)
  case Nil
  show ?case by simp
next
  case (Cons a pieces)
  have "strip a = [] \<Longrightarrow> filter (\<lambda>c. \<not> is_space c) a = []"
    using filter_strip_chars[of is_space a] by (simp add: strip_def)
  with Cons show ?case by (simp add: strip_def filter_strip_chars)
qed

lemma hello_clauses:
  "fst (generate_clauses [''Hel'', ''lo. How'', '' are'', '' you?'']) = [''Hello.'', ''How are you?'']"
  by (simp add: generate_clauses_def pop_ready_clauses_def enumerate_eq_zip strip_def strip_chars_def
      is_space_def is_terminal_def slice_def split_def Let_def)

text \<open>
  Claim C2, as amended. The fragments, concatenated, can be cut into pieces such that the
  emitted clauses are exactly the pieces trimmed, in order, without those that are blank: the
  segmenter moves clause boundaries and drops the whitespace next to them, nothing else. In
  particular the clauses and the fragments have the same characters, in the same order, once
  whitespace is deleted from both.
\<close>

theorem segmentation_preserves_text:
  "(\<exists>pieces. concat pieces = concat tokens
       \<and> fst (generate_clauses tokens) = filter (\<lambda>s. s \<noteq> []) (map strip pieces))
   \<and> filter (\<lambda>c. \<not> is_space c) (concat (fst (generate_clauses tokens)))
       = filter (\<lambda>c. \<not> is_space c) (concat tokens)"
proof -
  obtain pieces where p: "fst (generate_clauses tokens) = filter (\<lambda>s. s \<noteq> []) (map strip pieces)"
    "concat pieces = concat tokens"
    unfolding generate_clauses_def using generate_loop_pieces[of tokens "[]" 0] by auto
  have "filter (\<lambda>c. \<not> is_space c) (concat (fst (generate_clauses tokens)))
       = filter (\<lambda>c. \<not> is_space c) (concat tokens)"
    using p nonspace_trimmed_pieces[of pieces] by simp
  with p show ?thesis by blast
qed

text \<open>
  Claim C2 as stated fails: for the single fragment \<^verbatim>\<open>"Hi.  Yo."\<close> the clauses are
  \<^verbatim>\<open>"Hi."\<close> and \<^verbatim>\<open>"Yo."\<close>, whose concatenation has lost the two blanks between the
  sentences (joined with one blank it would still differ from the input).
\<close>

theorem segmentation_not_lossless:
  "strip (concat (fst (generate_clauses [''Hi.  Yo.'']))) \<noteq> strip (concat [''Hi.  Yo.''])"
  by (simp add: generate_clauses_def pop_ready_clauses_def enumerate_eq_zip strip_def strip_chars_def
      is_space_def is_terminal_def slice_def split_def Let_def)

text \<open>
  Claim C3. For the fragments \<^verbatim>\<open>["Hel", "lo. How", " are", " you?"]\<close> the clauses are
  \<^verbatim>\<open>["Hello.", "How are you?"]\<close>, and \<^verbatim>\<open>self.word_count\<close> takes the values 1, 2, 2, 3: it
  ends at 3, not at 4, because the count is taken on the buffer, from which the clause
  \<^verbatim>\<open>"Hello."\<close> has already been cut when the later fragments arrive.
\<close>

theorem generate_clauses_hello:
  "generate_clauses [''Hel'', ''lo. How'', '' are'', '' you?''] = ([''Hello.'', ''How are you?''], 3)
   \<and> word_counts [''Hel'', ''lo. How'', '' are'', '' you?''] [] = [1, 2, 2, 3]"
  by (simp add: generate_clauses_def pop_ready_clauses_def enumerate_eq_zip strip_def strip_chars_def
      is_space_def is_terminal_def slice_def split_def Let_def)

text \<open>
  Claim C4, as amended. Every clause the segmenter emits, the final flush included, is
  trimmed and not empty. (Nothing is said about clauses made of punctuation only: the
  segmenter does emit them.)
\<close>

theorem clauses_trimmed_nonempty:
  "\<forall>c \<in> set (fst (generate_clauses tokens)). strip c \<noteq> [] \<and> strip c = c"
proof
  fix c assume "c \<in> set (fst (generate_clauses tokens))"
  moreover obtain pieces where "fst (generate_clauses tokens) = filter (\<lambda>s. s \<noteq> []) (map strip pieces)"
    unfolding generate_clauses_def using generate_loop_pieces[of tokens "[]" 0] by auto
  ultimately obtain p where "c = strip p" "c \<noteq> []" by auto
  then show "strip c \<noteq> [] \<and> strip c = c" by (simp add: strip_def strip_chars_idem)
qed

theorem clauses_trimmed_nonempty_witness:
  "''How are you?'' \<in> set (fst (generate_clauses [''Hel'', ''lo. How'', '' are'', '' you?'']))
   \<and> strip ''How are you?'' \<noteq> [] \<and> strip ''How are you?'' = ''How are you?''"
  using clauses_trimmed_nonempty[of "[''Hel'', ''lo. How'', '' are'', '' you?'']"]
  by (simp add: hello_clauses)

text \<open>
  Claim C4 as stated fails: for the fragment \<^verbatim>\<open>"Wait..."\<close> the segmenter emits
  \<^verbatim>\<open>"Wait."\<close>, \<^verbatim>\<open>"."\<close> and \<^verbatim>\<open>"."\<close>; the last two consist of terminal punctuation only.
\<close>

theorem punctuation_only_clause:
  "\<not> (\<forall>c \<in> set (fst (generate_clauses [''Wait...''])). strip c \<noteq> [] \<and> \<not> list_all is_terminal c)"
  by (simp add: generate_clauses_def pop_ready_clauses_def enumerate_eq_zip strip_def strip_chars_def
      is_space_def is_terminal_def slice_def split_def Let_def)

subsection \<open>Confidence resolver\<close>

lemma known_tier_iff: "known_tier k \<longleftrightarrow> k \<in> set [''low'', ''medium'', ''high'']"
  by (simp add: known_tier_def CONFIDENCE_BEHAVIORS_def)

lemma main_known_tier_iff: "main_known_tier k \<longleftrightarrow> k \<in> set [''low'', ''medium'', ''high'']"
  by (simp add: main_known_tier_def main_CONFIDENCE_BEHAVIORS_def)

lemma strip_Nil: "strip [] = []"
  by (simp add: strip_def strip_chars_def)

lemma tier_names_normal:
  "k \<in> set [''low'', ''medium'', ''high''] \<Longrightarrow> lower (strip k) = k \<and> k \<noteq> []"
  by (auto simp: lower_def lower_char_def strip_def strip_chars_def is_space_def)

lemma resolve_confidence_normalised:
  "resolve_confidence hint wc =
     (case hint of
        None \<Rightarrow> estimate_confidence_from_words wc
      | Some h \<Rightarrow>
          if lower (strip h) \<in> set [''low'', ''medium'', ''high''] then lower (strip h)
          else estimate_confidence_from_words wc)"
proof (cases hint)
  case None
  then show ?thesis by (simp add: resolve_confidence_def)
next
  case (Some h)
  have "h = [] \<Longrightarrow> lower (strip h) \<notin> set [''low'', ''medium'', ''high'']"
    by (simp add: strip_Nil lower_def)
  with Some show ?thesis
    by (auto simp: resolve_confidence_def known_tier_iff)
qed

lemma main_resolve_confidence_eq: "main_resolve_confidence hint wc = resolve_confidence hint wc"
proof (cases hint)
  case None
  then show ?thesis by (simp add: resolve_confidence_def main_resolve_confidence_def)
next
  case (Some h)
  then show ?thesis
    by (simp add: resolve_confidence_def main_resolve_confidence_def Let_def known_tier_iff
        main_known_tier_iff)
qed

text \<open>
  Claim C5, as amended. A hint that is one of the tier names is returned as it is, whatever
  the word count. More generally the hint is first trimmed and lower-cased: when the result
  is a tier name, that name is returned. With no hint, or with one that is no tier name
  after trimming and lower-casing, the result goes by the word count: low below 25, medium
  below 60, high from 60 on; so 10, 40 and 100 words without a hint give low, medium and
  high. The resolver of main.py computes the same function.
\<close>

theorem resolve_confidence_tiers:
  "(h \<in> set [''low'', ''medium'', ''high''] \<longrightarrow> resolve_confidence (Some h) wc = h)
   \<and> (lower (strip g) \<in> set [''low'', ''medium'', ''high'']
        \<longrightarrow> resolve_confidence (Some g) wc = lower (strip g))
   \<and> (hint = None \<or> (\<exists>k. hint = Some k \<and> lower (strip k) \<notin> set [''low'', ''medium'', ''high''])
        \<longrightarrow> resolve_confidence hint wc =
              (if wc < 25 then ''low'' else if wc < 60 then ''medium'' else ''high''))
   \<and> resolve_confidence None 10 = ''low''
   \<and> resolve_confidence None 40 = ''medium''
   \<and> resolve_confidence None 100 = ''high''
   \<and> main_resolve_confidence hint wc = resolve_confidence hint wc"
proof -
  have a: "h \<in> set [''low'', ''medium'', ''high''] \<longrightarrow> resolve_confidence (Some h) wc = h"
    using tier_names_normal[of h] by (auto simp: resolve_confidence_normalised)
  have b: "lower (strip g) \<in> set [''low'', ''medium'', ''high'']
        \<longrightarrow> resolve_confidence (Some g) wc = lower (strip g)"
    by (simp add: resolve_confidence_normalised)
  have c: "hint = None \<or> (\<exists>k. hint = Some k \<and> lower (strip k) \<notin> set [''low'', ''medium'', ''high''])
        \<longrightarrow> resolve_confidence hint wc =
              (if wc < 25 then ''low'' else if wc < 60 then ''medium'' else ''high'')"
    by (auto simp: resolve_confidence_normalised estimate_confidence_from_words_def)
  have d: "resolve_confidence None 10 = ''low''" "resolve_confidence None 40 = ''medium''"
    "resolve_confidence None 100 = ''high''"
    by (simp_all add: resolve_confidence_def estimate_confidence_from_words_def)
  show ?thesis using a b c d main_resolve_confidence_eq by blast
qed

lemma normalise_HIGH: "lower (strip '' HIGH '') = ''high''"
  by (simp add: lower_def lower_char_def strip_def strip_chars_def is_space_def)

theorem resolve_confidence_tiers_witness:
  "resolve_confidence (Some ''medium'') 3 = ''medium''
   \<and> resolve_confidence (Some '' HIGH '') 3 = ''high''
   \<and> resolve_confidence (Some ''maybe'') 3 = ''low''
   \<and> resolve_confidence None 70 = ''high''"
proof -
  have 1: "lower (strip ''maybe'') \<notin> set [''low'', ''medium'', ''high'']"
    by (simp add: lower_def lower_char_def strip_def strip_chars_def is_space_def)
  show ?thesis
    using resolve_confidence_tiers[of "''medium''" 3 "'' HIGH ''" "Some ''maybe''"]
      resolve_confidence_tiers[of "''medium''" 70 "'' HIGH ''" None] 1
    by (simp add: normalise_HIGH)
qed

text \<open>
  Claim C5 as stated fails: for the hint \<^verbatim>\<open>"HIGH"\<close> and 10 words the code answers
  \<^verbatim>\<open>"high"\<close>. The hint is not returned verbatim, and read as no known tier it would have to
  give \<^verbatim>\<open>"low"\<close>, as the reference definition does.
\<close>

theorem resolve_confidence_not_reference:
  "resolve_confidence (Some ''HIGH'') 10 \<noteq> resolve_reference (Some ''HIGH'') 10"
  by (simp add: resolve_confidence_def resolve_reference_def known_tier_def CONFIDENCE_BEHAVIORS_def
      estimate_confidence_from_words_def lower_def lower_char_def strip_def strip_chars_def
      is_space_def)

subsection \<open>Decision service\<close>

lemma strip_strip: "strip (strip s) = strip s"
  by (simp add: strip_def strip_chars_idem)

lemma strip_fences_strip: "strip_fences (strip s) = strip_fences s"
  by (simp add: strip_fences_def strip_strip)

lemma strip_fences_plain:
  "\<not> startswith (strip body) ''```'' \<Longrightarrow> strip_fences body = strip body"
  by (simp add: strip_fences_def)

lemma strip_chars_fence:
  assumes "inner \<noteq> []" "\<not> is_backtick (hd inner)" "\<not> is_backtick (last inner)"
  shows "strip_chars is_backtick (''```'' @ inner @ ''```'') = inner"
proof -
  have 1: "dropWhile is_backtick (''```'' @ inner @ ''```'') = inner @ ''```''"
    using assms by (cases inner) (simp_all add: is_backtick_def)
  have 2: "dropWhile is_backtick (rev (inner @ ''```'')) = rev inner"
    using assms by (cases "rev inner") (auto simp: is_backtick_def last_rev[symmetric] hd_rev)
  show ?thesis by (simp only: strip_chars_def 1 2 rev_rev_ident)
qed

lemma strip_fences_json_block:
  assumes "inner \<noteq> []" "\<not> is_backtick (last inner)"
  shows "strip_fences (''```json'' @ inner @ ''```'') = inner"
proof -
  let ?t = "''```json'' @ inner @ ''```''"
  have s: "strip ?t = ?t"
    unfolding strip_def by (rule strip_chars_fixed) (simp_all add: is_space_def)
  have "strip_chars is_backtick (''```'' @ (''json'' @ inner) @ ''```'') = ''json'' @ inner"
    by (rule strip_chars_fence) (use assms in \<open>simp_all add: is_backtick_def\<close>)
  then have c: "strip_chars is_backtick ?t = ''json'' @ inner" by simp
  have "strip_fences ?t =
      (if startswith ?t ''```'' then
         (if startswith (lower (''json'' @ inner)) ''json'' then drop 4 (''json'' @ inner)
          else ''json'' @ inner)
       else ?t)"
    by (simp only: strip_fences_def s c Let_def)
  also have "\<dots> = inner"
    by (simp add: startswith_def lower_def lower_char_def)
  finally show ?thesis .
qed

text \<open>
  Claim C9, as amended. \<^verbatim>\<open>decide\<close> raises its parse error exactly when \<^verbatim>\<open>json.loads\<close>
  rejects the body after trimming and fence-stripping; whatever value \<^verbatim>\<open>json.loads\<close>
  returns, an object or not, is returned and no error is raised. A body that does not start
  with three backticks is only trimmed; a block \<^verbatim>\<open>```json ... ```\<close> is reduced to what
  stands between the tag and the closing fence. A transport failure is passed on as it is.
\<close>

theorem decide_parse_error:
  "(is_parse_error (decide loads (Inr content)) \<longleftrightarrow> loads (strip_fences content) = None)
   \<and> (loads (strip_fences content) = Some v \<longrightarrow> decide loads (Inr content) = Inr v)
   \<and> (\<not> startswith (strip content) ''```'' \<longrightarrow> strip_fences content = strip content)
   \<and> (inner \<noteq> [] \<and> \<not> is_backtick (last inner)
        \<longrightarrow> strip_fences (''```json'' @ inner @ ''```'') = inner)
   \<and> decide loads (Inl TransportError) = Inl TransportError"
proof -
  have 1: "is_parse_error (decide loads (Inr content)) \<longleftrightarrow> loads (strip_fences content) = None"
    by (cases "loads (strip_fences content)")
       (simp_all add: decide_def parse_json_def strip_fences_strip is_parse_error_def)
  have 2: "loads (strip_fences content) = Some v \<longrightarrow> decide loads (Inr content) = Inr v"
    by (simp add: decide_def parse_json_def strip_fences_strip)
  have 5: "decide loads (Inl TransportError) = Inl TransportError"
    by (simp add: decide_def)
  from 1 2 5 strip_fences_plain strip_fences_json_block show ?thesis by blast
qed

theorem decide_parse_error_witness:
  "decide loads_literals (Inr ''```json{}```'') = Inr (JObject [])
   \<and> is_parse_error (decide loads_literals (Inr ''Sure! Here is the plan.''))"
proof -
  have f: "strip_fences ''```json{}```'' = ''{}''"
    using decide_parse_error[of loads_literals "''```json{}```''" "JObject []" "''{}''"]
    by (simp add: is_backtick_def)
  have p: "strip_fences ''Sure! Here is the plan.'' = ''Sure! Here is the plan.''"
    by (simp add: strip_fences_def startswith_def strip_def strip_chars_def is_space_def)
  have 1: "decide loads_literals (Inr ''```json{}```'') = Inr (JObject [])"
    using decide_parse_error[of loads_literals "''```json{}```''" "JObject []" "''{}''"] f
    by (simp add: loads_literals_def)
  have 2: "is_parse_error (decide loads_literals (Inr ''Sure! Here is the plan.''))"
    using decide_parse_error[of loads_literals "''Sure! Here is the plan.''" "JNull" "''{}''"] p
    by (simp add: loads_literals_def)
  from 1 2 show ?thesis by blast
qed

text \<open>
  Claim C9 as stated fails: the body \<^verbatim>\<open>[]\<close> is valid JSON but no object, and \<^verbatim>\<open>decide\<close>
  returns the parsed list without a parse error.
\<close>

theorem decide_returns_non_object:
  "is_parse_error (decide loads_literals (Inr ''[]''))
     \<noteq> (\<not> valid_json_object loads_literals (strip_fences ''[]''))"
  by (simp add: decide_def parse_json_def strip_fences_def startswith_def strip_def strip_chars_def
      is_space_def loads_literals_def is_parse_error_def valid_json_object_def is_object_def Let_def)

subsection \<open>Direct answer\<close>

lemma direct_confidence_tier:
  "direct_confidence hint \<in> set [''low'', ''medium'', ''high''] \<and> known_tier (direct_confidence hint)"
  by (cases hint) (auto simp: direct_confidence_def known_tier_iff)

lemma strip_APOLOGY: "strip APOLOGY = APOLOGY" "strip main_APOLOGY = main_APOLOGY"
  by (simp_all add: APOLOGY_def main_APOLOGY_def strip_def strip_chars_def is_space_def)

lemma APOLOGY_nonempty: "APOLOGY \<noteq> []" "main_APOLOGY \<noteq> []"
  by (simp_all add: APOLOGY_def main_APOLOGY_def)

lemma direct_answer_text_ends:
  assumes "apology \<noteq> []" "\<not> is_space (last apology)"
  shows "direct_answer_text apology a \<noteq> [] \<and> \<not> is_space (last (direct_answer_text apology a))"
  using assms strip_chars_ends(2)[of is_space "case a of None \<Rightarrow> [] | Some t \<Rightarrow> t"]
  by (auto simp: direct_answer_text_def Let_def strip_def)

lemma prefixed_answer:
  assumes "k \<in> set [''low'', ''medium'', ''high'']" "body \<noteq> []" "\<not> is_space (last body)"
  shows "strip (fst (get_confidence_behavior k) @ '' '' @ body)
           = fst (get_confidence_behavior k) @ '' '' @ body"
proof -
  let ?p = "fst (get_confidence_behavior k)"
  have p: "?p \<noteq> [] \<and> \<not> is_space (hd ?p)"
    using assms(1)
    by (auto simp: get_confidence_behavior_def get_legacy_behavior_def known_tier_def
        CONFIDENCE_BEHAVIORS_def is_space_def)
  have "strip_chars is_space (?p @ '' '' @ body) = ?p @ '' '' @ body"
    by (rule strip_chars_fixed) (use p assms in simp_all)
  then show ?thesis by (simp add: strip_def)
qed

lemma respond_directly_events:
  "fst (respond_directly has_client decision hint) =
     [PrintDirect (direct_confidence hint) (snd (get_confidence_behavior (direct_confidence hint))),
      PrintRobot (fst (get_confidence_behavior (direct_confidence hint)) @ '' ''
                  @ direct_answer_text APOLOGY (answer decision))]
     @ (if has_client
        then [Speak (fst (get_confidence_behavior (direct_confidence hint)) @ '' ''
                     @ direct_answer_text APOLOGY (answer decision))]
        else [])"
proof -
  have e: "direct_answer_text APOLOGY (answer decision) \<noteq> []
      \<and> \<not> is_space (last (direct_answer_text APOLOGY (answer decision)))"
    by (rule direct_answer_text_ends) (simp_all add: APOLOGY_def is_space_def)
  have "strip (fst (get_confidence_behavior (direct_confidence hint)) @ '' ''
            @ direct_answer_text APOLOGY (answer decision))
        = fst (get_confidence_behavior (direct_confidence hint)) @ '' ''
            @ direct_answer_text APOLOGY (answer decision)"
    using direct_confidence_tier[of hint] e by (intro prefixed_answer) simp_all
  then show ?thesis
    by (simp add: respond_directly_def Let_def case_prod_beta)
qed

text \<open>
  Claim C6, as amended. On the direct path (\<open>need_thinking\<close> false) the confidence is the hint
  when the hint is one of the tier names and medium otherwise; no thinking output occurs;
  and when an actuation client is configured exactly one speak call is issued, whose text is
  the tier's verbal prefix, a blank, and the trimmed answer (the built-in apology when the
  answer is blank). With no client configured no speak call is issued.
\<close>

theorem direct_answer_path:
  "\<not> need_thinking decision \<Longrightarrow>
   direct_confidence (confidence decision)
     = (case confidence decision of
          None \<Rightarrow> ''medium''
        | Some h \<Rightarrow> if h \<in> set [''low'', ''medium'', ''high''] then h else ''medium'')
   \<and> speak_calls (run has_client question decision w)
       = (if has_client
          then [fst (get_confidence_behavior (direct_confidence (confidence decision))) @ '' ''
                @ direct_answer_text APOLOGY (answer decision)]
          else [])
   \<and> filter is_thinking_output (run has_client question decision w) = []"
proof -
  assume d: "\<not> need_thinking decision"
  have 1: "direct_confidence (confidence decision)
     = (case confidence decision of
          None \<Rightarrow> ''medium''
        | Some h \<Rightarrow> if h \<in> set [''low'', ''medium'', ''high''] then h else ''medium'')"
    by (cases "confidence decision") (simp_all add: direct_confidence_def known_tier_iff)
  have 2: "speak_calls (run has_client question decision w)
       = (if has_client
          then [fst (get_confidence_behavior (direct_confidence (confidence decision))) @ '' ''
                @ direct_answer_text APOLOGY (answer decision)]
          else [])"
    using d by (simp add: run_def respond_directly_events speak_calls_def)
  have 3: "filter is_thinking_output (run has_client question decision w) = []"
    using d by (simp add: run_def respond_directly_events is_thinking_output_def)
  from 1 2 3 show ?thesis by blast
qed

lemma paris_text: "direct_answer_text APOLOGY (Some ''Paris is the capital.'') = ''Paris is the capital.''"
  by (simp add: direct_answer_text_def Let_def strip_def strip_chars_def is_space_def)

theorem direct_answer_path_witness:
  "\<not> need_thinking paris_plan
   \<and> speak_calls (run True ''What is the capital of France?'' paris_plan answer_first_world)
       = [''I'm confident that Paris is the capital.'']
   \<and> filter is_thinking_output (run True ''What is the capital of France?'' paris_plan answer_first_world) = []"
proof -
  have n: "\<not> need_thinking paris_plan" by (simp add: paris_plan_def)
  have c: "confidence paris_plan = Some ''high''" "answer paris_plan = Some ''Paris is the capital.''"
    by (simp_all add: paris_plan_def)
  have p: "fst (get_confidence_behavior ''high'') = ''I'm confident that''"
    by (simp add: get_confidence_behavior_def get_legacy_behavior_def known_tier_def CONFIDENCE_BEHAVIORS_def)
  from direct_answer_path[OF n, of True "''What is the capital of France?''" answer_first_world] n
  show ?thesis by (simp add: c p paris_text)
qed

text \<open>
  Claim C6 as stated fails: an orchestrator built without an actuation client (the
  constructor's default) answers the Paris plan without any speak call.
\<close>

theorem direct_answer_without_client:
  "length (speak_calls (run False ''What is the capital of France?'' paris_plan answer_first_world)) \<noteq> 1"
  by (simp add: run_def paris_plan_def respond_directly_events speak_calls_def)

text \<open>
  Claim C10. When the plan's answer is missing, \<^verbatim>\<open>None\<close> or blank after trimming, the direct
  path behaves exactly as if the answer were the built-in apology: the apology is printed
  and, with a client, spoken behind the tier's prefix. The same holds in main.py, with its own
  apology sentence, which is printed without a prefix.
\<close>

theorem blank_answer_apology:
  "strip (case answer decision of None \<Rightarrow> [] | Some t \<Rightarrow> t) = [] \<Longrightarrow>
   respond_directly has_client decision hint
     = respond_directly has_client (decision\<lparr>answer := Some APOLOGY\<rparr>) hint
   \<and> fst (respond_directly has_client decision hint)
       = [PrintDirect (direct_confidence hint) (snd (get_confidence_behavior (direct_confidence hint))),
          PrintRobot (fst (get_confidence_behavior (direct_confidence hint)) @ '' '' @ APOLOGY)]
         @ (if has_client
            then [Speak (fst (get_confidence_behavior (direct_confidence hint)) @ '' '' @ APOLOGY)]
            else [])
   \<and> main_respond_directly decision hint
       = main_respond_directly (decision\<lparr>answer := Some main_APOLOGY\<rparr>) hint
   \<and> PrintRobot main_APOLOGY \<in> set (main_respond_directly decision hint)"
proof -
  assume blank: "strip (case answer decision of None \<Rightarrow> [] | Some t \<Rightarrow> t) = []"
  have a: "direct_answer_text APOLOGY (answer decision) = APOLOGY"
    "direct_answer_text main_APOLOGY (answer decision) = main_APOLOGY"
    using blank by (simp_all add: direct_answer_text_def)
  have b: "direct_answer_text APOLOGY (Some APOLOGY) = APOLOGY"
    "direct_answer_text main_APOLOGY (Some main_APOLOGY) = main_APOLOGY"
    by (simp_all add: direct_answer_text_def strip_APOLOGY Let_def APOLOGY_nonempty)
  have 1: "respond_directly has_client decision hint
     = respond_directly has_client (decision\<lparr>answer := Some APOLOGY\<rparr>) hint"
    by (simp add: respond_directly_def a b)
  have 2: "fst (respond_directly has_client decision hint)
       = [PrintDirect (direct_confidence hint) (snd (get_confidence_behavior (direct_confidence hint))),
          PrintRobot (fst (get_confidence_behavior (direct_confidence hint)) @ '' '' @ APOLOGY)]
         @ (if has_client
            then [Speak (fst (get_confidence_behavior (direct_confidence hint)) @ '' '' @ APOLOGY)]
            else [])"
    by (simp add: respond_directly_events a)
  have 3: "main_respond_directly decision hint
       = main_respond_directly (decision\<lparr>answer := Some main_APOLOGY\<rparr>) hint"
    by (simp add: main_respond_directly_def a b)
  have k: "main_known_tier (case hint of None \<Rightarrow> ''medium'' | Some h \<Rightarrow> if main_known_tier h then h else ''medium'')"
    by (cases hint) (auto simp: main_known_tier_iff)
  then obtain p g where "main_CONFIDENCE_BEHAVIORS
      (case hint of None \<Rightarrow> ''medium'' | Some h \<Rightarrow> if main_known_tier h then h else ''medium'') = Some (p, g)"
    by (auto simp: main_known_tier_def)
  then have 4: "PrintRobot main_APOLOGY \<in> set (main_respond_directly decision hint)"
    by (simp add: main_respond_directly_def a Let_def)
  from 1 2 3 4 show ?thesis by blast
qed

theorem blank_answer_apology_witness:
  "strip (case answer (sample_plan\<lparr>answer := Some ''   ''\<rparr>) of None \<Rightarrow> [] | Some t \<Rightarrow> t) = []
   \<and> fst (respond_directly True (sample_plan\<lparr>answer := Some ''   ''\<rparr>) None)
       = [PrintDirect ''medium'' ''look straight'',
          PrintRobot ''Let me think I'm sorry, I can't provide an answer at the moment.'',
          Speak ''Let me think I'm sorry, I can't provide an answer at the moment.'']
   \<and> main_respond_directly (sample_plan\<lparr>answer := Some ''   ''\<rparr>) None
       = [PrintDirect ''medium'' ''steady gaze'',
          PrintRobot ''Sorry, I don't have a confident answer yet.'',
          PrintGesture ''steady gaze'']"
proof -
  have blank: "strip (case answer (sample_plan\<lparr>answer := Some ''   ''\<rparr>) of None \<Rightarrow> [] | Some t \<Rightarrow> t) = []"
    by (simp add: strip_def strip_chars_def is_space_def)
  have m: "main_respond_directly (sample_plan\<lparr>answer := Some main_APOLOGY\<rparr>) None
       = [PrintDirect ''medium'' ''steady gaze'',
          PrintRobot ''Sorry, I don't have a confident answer yet.'',
          PrintGesture ''steady gaze'']"
    by (simp add: main_respond_directly_def direct_answer_text_def strip_APOLOGY Let_def
        main_known_tier_def main_CONFIDENCE_BEHAVIORS_def APOLOGY_nonempty)
       (simp add: main_APOLOGY_def)
  have p: "get_confidence_behavior ''medium'' = (''Let me think'', ''look straight'')"
    by (simp add: get_confidence_behavior_def get_legacy_behavior_def known_tier_def CONFIDENCE_BEHAVIORS_def)
  note t = blank_answer_apology[OF blank, of True None]
  have 2: "fst (respond_directly True (sample_plan\<lparr>answer := Some ''   ''\<rparr>) None)
       = [PrintDirect ''medium'' ''look straight'',
          PrintRobot ''Let me think I'm sorry, I can't provide an answer at the moment.'',
          Speak ''Let me think I'm sorry, I can't provide an answer at the moment.'']"
    using t[THEN conjunct2, THEN conjunct1] by (simp add: direct_confidence_def p APOLOGY_def)
  have 3: "main_respond_directly (sample_plan\<lparr>answer := Some ''   ''\<rparr>) None
       = [PrintDirect ''medium'' ''steady gaze'',
          PrintRobot ''Sorry, I don't have a confident answer yet.'',
          PrintGesture ''steady gaze'']"
    using t[THEN conjunct2, THEN conjunct2, THEN conjunct1] m by simp
  from blank 2 3 show ?thesis by blast
qed

subsection \<open>Thinking relay\<close>

lemma cues_append: "cues (xs @ ys) = cues xs + cues ys"
  by (simp add: cues_def)

lemma emit_line_facts:
  assumes "emit_line has_client env cue r = (ok, r')"
  shows "emitted r' = emitted r" and "fallback_idx r' = fallback_idx r"
    and "clock r' = clock r + emit_ms env (emitted r)"
    and "cues (events r') = cues (events r) + 1"
    and "count_list (events r') BarrierSet = count_list (events r) BarrierSet"
  using assms by (auto simp: emit_line_def Let_def cues_def is_cue_def split: if_splits)

lemma after_emit_facts:
  assumes "after_emit env deadline r = (fl, r')"
  shows "emitted r' = emitted r + 1"
    and "cues (events r') = cues (events r)"
    and "count_list (events r') BarrierSet = count_list (events r) BarrierSet"
    and "fl = Next \<Longrightarrow> emitted r' < MAX_THINKING_CUES \<and> clock r' < deadline + THINKING_PAUSE_MS"
    and "fl \<noteq> Next \<Longrightarrow> clock r' = clock r"
  using assms by (auto simp: after_emit_def Let_def cues_def is_cue_def split: if_splits)

lemma stream_loop_cap:
  assumes "stream_loop has_client env deadline fs r = (raised, r')"
    and "cues (events r) = emitted r" and "emitted r \<le> MAX_THINKING_CUES"
  shows "cues (events r') \<le> MAX_THINKING_CUES \<and> (\<not> raised \<longrightarrow> cues (events r') = emitted r')"
  using assms
proof (induction has_client env deadline fs r rule: stream_loop.induct)
  case (1 has_client env deadline r)
  then show ?case by auto
next
  case (2 has_client env deadline wait rest r)
  then show ?case by auto
next
  case (3 has_client env deadline wait cue rest r)
  let ?r1 = "r\<lparr>clock := clock r + wait\<rparr>"
  show ?case
  proof (cases "deadline \<le> clock ?r1 \<or> MAX_THINKING_CUES \<le> emitted ?r1")
    case True
    with 3 show ?thesis by auto
  next
    case go: False
    show ?thesis
    proof (cases "is_meaningful_thinking_cue cue")
      case False
      with go 3 show ?thesis by (simp add: Let_def)
    next
      case True
      obtain ok r2 where e: "emit_line has_client env cue ?r1 = (ok, r2)" by fastforce
      note ef = emit_line_facts[OF e]
      show ?thesis
      proof (cases ok)
        case False
        with go True e "3.prems" ef show ?thesis by (auto simp: Let_def)
      next
        case ok: True
        obtain fl r3 where a: "after_emit env deadline r2 = (fl, r3)" by fastforce
        note af = after_emit_facts[OF a]
        show ?thesis
        proof (cases fl)
          case Next
          have sl: "stream_loop has_client env deadline rest r3 = (raised, r')"
            using go True e ok a Next "3.prems"(1) by (simp add: Let_def)
          have c3: "cues (events r3) = emitted r3" using af ef "3.prems" by simp
          have m3: "emitted r3 \<le> MAX_THINKING_CUES" using af(4) Next by simp
          show ?thesis
            by (rule "3.IH"(2)[of ?r1 ok r2 fl r3]) (use go True e ok a Next sl c3 m3 in simp_all)
        next
          case Break
          with go True e ok a "3.prems" ef af show ?thesis by (auto simp: Let_def)
        next
          case Raise
          with go True e ok a "3.prems" ef af show ?thesis by (auto simp: Let_def)
        qed
      qed
    qed
  qed
qed


lemma filler_loop_cap:
  assumes "filler_loop has_client env deadline r = (raised, r')"
    and "cues (events r) = emitted r" and "emitted r \<le> MAX_THINKING_CUES"
  shows "cues (events r') \<le> MAX_THINKING_CUES"
  using assms
proof (induction has_client env deadline r rule: filler_loop.induct)
  case (1 has_client env deadline r)
  show ?case
  proof (cases "clock r < deadline \<and> emitted r < MAX_THINKING_CUES")
    case False
    with 1 show ?thesis by auto
  next
    case go: True
    let ?filler = "THINKING_FALLBACK_LINES ! (fallback_idx r mod length THINKING_FALLBACK_LINES)"
    let ?r1 = "r\<lparr>fallback_idx := fallback_idx r + 1\<rparr>"
    obtain ok r2 where e: "emit_line has_client env ?filler ?r1 = (ok, r2)" by fastforce
    note ef = emit_line_facts[OF e]
    show ?thesis
    proof (cases ok)
      case False
      with go e "1.prems" ef show ?thesis by (auto simp: Let_def)
    next
      case ok: True
      obtain fl r3 where a: "after_emit env deadline r2 = (fl, r3)" by fastforce
      note af = after_emit_facts[OF a]
      show ?thesis
      proof (cases fl)
        case Next
        have sl: "filler_loop has_client env deadline r3 = (raised, r')"
          using go e ok a Next "1.prems"(1) by (simp add: Let_def)
        have c3: "cues (events r3) = emitted r3" using af ef "1.prems" by simp
        have m3: "emitted r3 \<le> MAX_THINKING_CUES" using af(4) Next by simp
        show ?thesis
          by (rule "1.IH"[of ?filler ?r1 ok r2 fl r3]) (use go e ok a Next sl c3 m3 in simp_all)
      next
        case Break
        with go e ok a "1.prems" ef af show ?thesis by (auto simp: Let_def)
      next
        case Raise
        with go e ok a "1.prems" ef af show ?thesis by (auto simp: Let_def)
      qed
    qed
  qed
qed

lemma stream_loop_barrier:
  "count_list (events (snd (stream_loop has_client env deadline fs r))) BarrierSet
     = count_list (events r) BarrierSet"
proof (induction has_client env deadline fs r rule: stream_loop.induct)
  case (1 has_client env deadline r)
  show ?case by simp
next
  case (2 has_client env deadline wait rest r)
  show ?case by simp
next
  case (3 has_client env deadline wait cue rest r)
  let ?r1 = "r\<lparr>clock := clock r + wait\<rparr>"
  obtain ok r2 where e: "emit_line has_client env cue ?r1 = (ok, r2)" by fastforce
  obtain fl r3 where a: "after_emit env deadline r2 = (fl, r3)" by fastforce
  note ef = emit_line_facts[OF e] and af = after_emit_facts[OF a]
  show ?case
  proof (cases "deadline \<le> clock ?r1 \<or> MAX_THINKING_CUES \<le> emitted ?r1")
    case True
    then show ?thesis by auto
  next
    case go: False
    show ?thesis
    proof (cases "is_meaningful_thinking_cue cue")
      case False
      with go "3.IH"(1)[of ?r1] show ?thesis by (simp add: Let_def)
    next
      case True
      show ?thesis
      proof (cases "ok \<and> fl = Next")
        case True
        have "count_list (events (snd (stream_loop has_client env deadline rest r3))) BarrierSet
            = count_list (events r3) BarrierSet"
          by (rule "3.IH"(2)[of ?r1 ok r2 fl r3])
             (use go \<open>is_meaningful_thinking_cue cue\<close> e a True in simp_all)
        with go \<open>is_meaningful_thinking_cue cue\<close> e a True ef af show ?thesis
          by (simp add: Let_def)
      next
        case False
        with go \<open>is_meaningful_thinking_cue cue\<close> e a ef af show ?thesis
          by (cases ok; cases fl) (simp_all add: Let_def)
      qed
    qed
  qed
qed

lemma filler_loop_barrier:
  "count_list (events (snd (filler_loop has_client env deadline r))) BarrierSet
     = count_list (events r) BarrierSet"
proof (induction has_client env deadline r rule: filler_loop.induct)
  case (1 has_client env deadline r)
  let ?filler = "THINKING_FALLBACK_LINES ! (fallback_idx r mod length THINKING_FALLBACK_LINES)"
  let ?r1 = "r\<lparr>fallback_idx := fallback_idx r + 1\<rparr>"
  obtain ok r2 where e: "emit_line has_client env ?filler ?r1 = (ok, r2)" by fastforce
  obtain fl r3 where a: "after_emit env deadline r2 = (fl, r3)" by fastforce
  note ef = emit_line_facts[OF e] and af = after_emit_facts[OF a]
  show ?case
  proof (cases "clock r < deadline \<and> emitted r < MAX_THINKING_CUES")
    case False
    then show ?thesis by auto
  next
    case go: True
    show ?thesis
    proof (cases "ok \<and> fl = Next")
      case True
      have "count_list (events (snd (filler_loop has_client env deadline r3))) BarrierSet
          = count_list (events r3) BarrierSet"
        by (rule "1.IH"[of ?filler ?r1 ok r2 fl r3]) (use go e a True in simp_all)
      with go e a True ef af show ?thesis
        by (subst filler_loop.simps) (simp add: Let_def)
    next
      case False
      with go e a ef af show ?thesis
        by (subst filler_loop.simps, cases ok; cases fl) (simp_all add: Let_def)
    qed
  qed
qed


lemma stream_loop_time:
  assumes "list_all (\<lambda>p. fst p \<le> D) fs" and "end_wait env \<le> D" and "\<And>i. emit_ms env i \<le> D"
    and "clock r < deadline + THINKING_PAUSE_MS"
  shows "clock (snd (stream_loop has_client env deadline fs r)) < deadline + THINKING_PAUSE_MS + D"
  using assms
proof (induction has_client env deadline fs r rule: stream_loop.induct)
  case (1 has_client env deadline r)
  then show ?case by simp
next
  case (2 has_client env deadline wait rest r)
  then show ?case by simp
next
  case (3 has_client env deadline wait cue rest r)
  let ?r1 = "r\<lparr>clock := clock r + wait\<rparr>"
  obtain ok r2 where e: "emit_line has_client env cue ?r1 = (ok, r2)" by fastforce
  obtain fl r3 where a: "after_emit env deadline r2 = (fl, r3)" by fastforce
  note ef = emit_line_facts[OF e] and af = after_emit_facts[OF a]
  have w: "wait \<le> D" and rest: "list_all (\<lambda>p. fst p \<le> D) rest" using "3.prems"(1) by simp_all
  have em: "emit_ms env (emitted ?r1) \<le> D" using "3.prems"(3) .
  show ?case
  proof (cases "deadline \<le> clock ?r1 \<or> MAX_THINKING_CUES \<le> emitted ?r1")
    case True
    then show ?thesis using w "3.prems"(4) by auto
  next
    case go: False
    then have lt: "clock ?r1 < deadline" by simp
    show ?thesis
    proof (cases "is_meaningful_thinking_cue cue")
      case False
      have "clock (snd (stream_loop has_client env deadline rest ?r1)) < deadline + THINKING_PAUSE_MS + D"
        by (rule "3.IH"(1)[of ?r1]) (use go False rest "3.prems" lt in simp_all)
      with go False show ?thesis by (simp add: Let_def)
    next
      case True
      show ?thesis
      proof (cases "ok \<and> fl = Next")
        case nx: True
        have "clock (snd (stream_loop has_client env deadline rest r3)) < deadline + THINKING_PAUSE_MS + D"
          by (rule "3.IH"(2)[of ?r1 ok r2 fl r3])
             (use go True e a nx rest "3.prems" af(4) in simp_all)
        with go True e a nx show ?thesis by (simp add: Let_def)
      next
        case False
        have "clock r2 < deadline + THINKING_PAUSE_MS + D" using ef(3) em lt by simp
        moreover have "fl \<noteq> Next \<Longrightarrow> clock r3 = clock r2" using af(5) .
        ultimately show ?thesis using go True e a False
          by (cases ok; cases fl) (simp_all add: Let_def)
      qed
    qed
  qed
qed

lemma filler_loop_time:
  assumes "\<And>i. emit_ms env i \<le> D" and "clock r < deadline + THINKING_PAUSE_MS + D"
  shows "clock (snd (filler_loop has_client env deadline r)) < deadline + THINKING_PAUSE_MS + D"
  using assms
proof (induction has_client env deadline r rule: filler_loop.induct)
  case (1 has_client env deadline r)
  let ?filler = "THINKING_FALLBACK_LINES ! (fallback_idx r mod length THINKING_FALLBACK_LINES)"
  let ?r1 = "r\<lparr>fallback_idx := fallback_idx r + 1\<rparr>"
  obtain ok r2 where e: "emit_line has_client env ?filler ?r1 = (ok, r2)" by fastforce
  obtain fl r3 where a: "after_emit env deadline r2 = (fl, r3)" by fastforce
  note ef = emit_line_facts[OF e] and af = after_emit_facts[OF a]
  have em: "emit_ms env (emitted ?r1) \<le> D" using "1.prems"(1) .
  show ?case
  proof (cases "clock r < deadline \<and> emitted r < MAX_THINKING_CUES")
    case False
    then show ?thesis using "1.prems"(2) by auto
  next
    case go: True
    show ?thesis
    proof (cases "ok \<and> fl = Next")
      case nx: True
      have "clock (snd (filler_loop has_client env deadline r3)) < deadline + THINKING_PAUSE_MS + D"
        by (rule "1.IH"[of ?filler ?r1 ok r2 fl r3]) (use go e a nx "1.prems" af(4) in simp_all)
      with go e a nx show ?thesis
        by (subst filler_loop.simps) (simp add: Let_def)
    next
      case False
      have "clock r2 < deadline + THINKING_PAUSE_MS + D" using ef(3) em go by simp
      moreover have "fl \<noteq> Next \<Longrightarrow> clock r3 = clock r2" using af(5) .
      ultimately show ?thesis using go e a False
        by (subst filler_loop.simps, cases ok; cases fl) (simp_all add: Let_def)
    qed
  qed
qed


lemma relay_thinking_cap:
  "cues (events (snd (relay_thinking has_client env start))) \<le> MAX_THINKING_CUES"
proof -
  let ?deadline = "start + THINKING_DURATION_MS"
  let ?r0 = "\<lparr>clock = start, emitted = 0, fallback_idx = 0, events = []\<rparr>"
  obtain raised r1 where s: "stream_loop has_client env ?deadline (fetches env) ?r0 = (raised, r1)"
    by fastforce
  have 1: "cues (events r1) \<le> MAX_THINKING_CUES \<and> (\<not> raised \<longrightarrow> cues (events r1) = emitted r1)"
    by (rule stream_loop_cap[OF s]) (simp_all add: cues_def)
  show ?thesis
  proof (cases raised)
    case True
    with s 1 show ?thesis by (simp add: relay_thinking_def Let_def cues_def is_cue_def)
  next
    case False
    obtain raised2 r2 where f: "filler_loop has_client env ?deadline r1 = (raised2, r2)" by fastforce
    have "cues (events r2) \<le> MAX_THINKING_CUES"
      by (rule filler_loop_cap[OF f]) (use 1 False in auto)
    with s f False show ?thesis by (simp add: relay_thinking_def Let_def cues_def is_cue_def)
  qed
qed

lemma relay_thinking_time:
  assumes "latency_bounded env D"
  shows "clock (snd (relay_thinking has_client env start))
           < start + THINKING_DURATION_MS + THINKING_PAUSE_MS + D"
proof -
  let ?deadline = "start + THINKING_DURATION_MS"
  let ?r0 = "\<lparr>clock = start, emitted = 0, fallback_idx = 0, events = []\<rparr>"
  obtain raised r1 where s: "stream_loop has_client env ?deadline (fetches env) ?r0 = (raised, r1)"
    by fastforce
  have em: "\<And>i. emit_ms env i \<le> D" using assms by (simp add: latency_bounded_def)
  have "clock (snd (stream_loop has_client env ?deadline (fetches env) ?r0))
          < ?deadline + THINKING_PAUSE_MS + D"
    by (rule stream_loop_time) (use assms in \<open>simp_all add: latency_bounded_def THINKING_PAUSE_MS_def\<close>)
  then have 1: "clock r1 < ?deadline + THINKING_PAUSE_MS + D" using s by simp
  have 2: "clock (snd (filler_loop has_client env ?deadline r1)) < ?deadline + THINKING_PAUSE_MS + D"
    using em 1 by (rule filler_loop_time)
  show ?thesis using s 1 2
    by (cases raised) (simp_all add: relay_thinking_def Let_def case_prod_beta)
qed

lemma relay_thinking_barrier_count:
  "count_list (events (snd (relay_thinking has_client env start))) BarrierSet = 1"
proof -
  let ?deadline = "start + THINKING_DURATION_MS"
  let ?r0 = "\<lparr>clock = start, emitted = 0, fallback_idx = 0, events = []\<rparr>"
  have 1: "count_list (events (snd (stream_loop has_client env ?deadline (fetches env) ?r0))) BarrierSet = 0"
    using stream_loop_barrier[of has_client env ?deadline "fetches env" ?r0] by simp
  have 2: "count_list (events (snd (filler_loop has_client env ?deadline
             (snd (stream_loop has_client env ?deadline (fetches env) ?r0))))) BarrierSet = 0"
    using filler_loop_barrier 1 by simp
  show ?thesis using 1 2
    by (simp add: relay_thinking_def Let_def case_prod_beta)
qed

lemma relay_thinking_last:
  "\<exists>es. events (snd (relay_thinking has_client env start)) = es @ [SetThinkingMode False, BarrierSet]"
  by (simp add: relay_thinking_def Let_def case_prod_beta)

text \<open>
  Claim C7, as amended. A run of the thinking relay never emits more cues, model cues and
  filler lines together, than \<open>MAX_THINKING_CUES\<close>. When every single wait for the stream and
  every call of \<^verbatim>\<open>emit_line\<close> takes at most \<open>D\<close> milliseconds, the relay ends less than the
  deadline window plus one pause plus \<open>D\<close> after its start; with \<open>D = 0\<close> that is the
  deadline plus one pause.
\<close>

theorem thinking_relay_bounded:
  "cues (events (snd (relay_thinking has_client env start))) \<le> MAX_THINKING_CUES
   \<and> (latency_bounded env D \<longrightarrow>
        clock (snd (relay_thinking has_client env start))
          < start + THINKING_DURATION_MS + THINKING_PAUSE_MS + D)"
  using relay_thinking_cap relay_thinking_time by blast

theorem thinking_relay_bounded_witness:
  "latency_bounded prompt_env 0
   \<and> cues (events (snd (relay_thinking True prompt_env 7))) \<le> 12
   \<and> clock (snd (relay_thinking True prompt_env 7)) < 7 + 10000 + 500"
proof -
  have b: "latency_bounded prompt_env 0"
    by (simp add: latency_bounded_def prompt_env_def)
  show ?thesis
    using b thinking_relay_bounded[of True prompt_env 7 0]
    by (simp add: MAX_THINKING_CUES_def THINKING_DURATION_MS_def THINKING_PAUSE_MS_def)
qed

text \<open>
  Claim C7 as stated fails in its second half: the relay tests the deadline only when the
  stream has delivered. When the first cue arrives after 20 seconds, the relay ends after 20
  seconds, later than the 10 seconds of the window plus the pause of half a second.
\<close>

theorem thinking_relay_overruns_deadline:
  "\<not> clock (snd (relay_thinking False slow_env 0)) \<le> 0 + THINKING_DURATION_MS + THINKING_PAUSE_MS"
  by (simp add: relay_thinking_def slow_env_def Let_def THINKING_DURATION_MS_def THINKING_PAUSE_MS_def
      MAX_THINKING_CUES_def)

text \<open>
  Claim C8. However a run of the thinking relay ends (deadline, cap, end of the fillers, a
  failure of the stream or of an actuation call, a cancellation while it waits or pauses), it
  ends, and \<open>BarrierSet\<close> occurs exactly once among its events, as the last of them.
\<close>

theorem thinking_relay_signals_once:
  "count_list (events (snd (relay_thinking has_client env start))) BarrierSet = 1
   \<and> last (events (snd (relay_thinking has_client env start))) = BarrierSet"
proof -
  obtain es where "events (snd (relay_thinking has_client env start)) = es @ [SetThinkingMode False, BarrierSet]"
    using relay_thinking_last by blast
  then have "last (events (snd (relay_thinking has_client env start))) = BarrierSet" by simp
  then show ?thesis using relay_thinking_barrier_count by simp
qed

text \<open>A run that the stream leaves with an exception after one cue still ends with the signal.\<close>

lemma relay_thinking_failure_example:
  "relay_thinking False failing_env 0 =
     (True, \<lparr>clock = 850, emitted = 1, fallback_idx = 0,
             events = [PrintThinking ''Comparing options...'', ThinkingBehavior 0, Pause,
                       SetThinkingMode False, BarrierSet]\<rparr>)"
  by (simp add: relay_thinking_def failing_env_def Let_def THINKING_DURATION_MS_def THINKING_PAUSE_MS_def
      MAX_THINKING_CUES_def emit_line_def after_emit_def is_meaningful_thinking_cue_def strip_def
      strip_chars_def is_space_def)

subsection \<open>Order of the two relays\<close>

lemma answer_after_barrier_append:
  "answer_after_barrier sig (xs @ ys) =
     (answer_after_barrier sig xs
      \<and> answer_after_barrier (sig \<or> (ThinkingRelay, BarrierSet) \<in> set xs) ys)"
proof (induction sig xs rule: answer_after_barrier.induct)
  case (1 signalled)
  show ?case by simp
next
  case (2 signalled t e rest)
  show ?case
  proof (cases "t = ThinkingRelay \<and> e = BarrierSet")
    case True
    with 2 show ?thesis by simp
  next
    case False
    then have "(ThinkingRelay, BarrierSet) \<noteq> (t, e)" by auto
    with False 2 show ?thesis by (cases "t = AnswerRelay") auto
  qed
qed

lemma answer_after_barrier_answer_events:
  "answer_after_barrier sig (map (Pair AnswerRelay) es) = (es = [] \<or> sig)"
  by (induction es) auto

lemma thinking_step_inv: "turn_inv s \<Longrightarrow> turn_inv (thinking_step s)"
  by (auto simp: turn_inv_def thinking_step_def answer_after_barrier_append split: list.splits)

lemma answer_step_events:
  assumes "answer_step has_client hint wc b a = (a', es)"
    and "first_clause a \<longrightarrow> full_answer_parts a = [] \<and> gesture_description a = []"
  shows "es \<noteq> [] \<longrightarrow> \<not> first_clause a \<or> b"
    and "\<not> first_clause a' \<longrightarrow> \<not> first_clause a \<or> b"
    and "first_clause a' \<longrightarrow> full_answer_parts a' = [] \<and> gesture_description a' = []"
  using assms
  by (auto simp: answer_step_def Let_def split: answer_pc.splits list.splits fetch.splits if_splits prod.splits)

lemma answer_relay_step_inv:
  assumes "turn_inv s"
  shows "turn_inv (answer_relay_step has_client hint wc s)"
proof -
  obtain a' es where st: "answer_step has_client hint wc (barrier s) (answer_relay s) = (a', es)"
    by fastforce
  have pre: "first_clause (answer_relay s) \<longrightarrow>
      full_answer_parts (answer_relay s) = [] \<and> gesture_description (answer_relay s) = []"
    using assms by (simp add: turn_inv_def)
  note f = answer_step_events[OF st pre]
  have sig: "es \<noteq> [] \<longrightarrow> (ThinkingRelay, BarrierSet) \<in> set (out s)"
    using f(1) assms by (auto simp: turn_inv_def)
  show ?thesis
    using assms st f sig
    by (auto simp: turn_inv_def answer_relay_step_def answer_after_barrier_append
        answer_after_barrier_answer_events)
qed

lemma exec_inv: "turn_inv s \<Longrightarrow> turn_inv (exec has_client hint wc sched s)"
  by (induction sched arbitrary: s) (simp_all add: thinking_step_inv answer_relay_step_inv)

text \<open>
  Claim C1. On the path with thinking, whatever the two streams deliver and however the steps
  of the two relays interleave, every event of the answer relay (the hand-off announcement
  with the confidence first among them) comes after the thinking relay's \<open>BarrierSet\<close>.
\<close>

theorem answer_waits_for_barrier:
  "need_thinking decision \<Longrightarrow> answer_after_barrier False (run has_client question decision w)"
proof -
  assume nt: "need_thinking decision"
  let ?s0 = "\<lparr>barrier = False,
      thinking = events (snd (relay_thinking has_client (thinking_env w) (start_time w))),
      answer_relay = initial_answer_task (answer_fetches w), out = []\<rparr>"
  have "turn_inv ?s0" by (simp add: turn_inv_def initial_answer_task_def)
  then have "turn_inv (exec has_client (confidence decision) (answer_word_count w) (schedule w) ?s0)"
    by (rule exec_inv)
  then have "answer_after_barrier False
      (out (exec has_client (confidence decision) (answer_word_count w) (schedule w) ?s0))"
    by (simp add: turn_inv_def)
  with nt show ?thesis by (simp add: run_def)
qed

text \<open>
  A turn in which the answer stream delivers its clause before the thinking relay has made a
  step: the answer relay waits at the barrier and announces the answer only after the signal.
\<close>

lemma answer_first_run:
  "run True ''q'' sample_plan answer_first_world = 
  [(Turn, PrintUser ''q''), (Turn, BarrierClear),
  (Turn, SetThinkingMode True),
  (ThinkingRelay, PrintThinking ''Comparing options...''),
  (ThinkingRelay, Speak ''Comparing options...''),
  (ThinkingRelay, ThinkingBehavior 0), (ThinkingRelay, Pause),
  (ThinkingRelay, SetThinkingMode False), (ThinkingRelay, BarrierSet),
  (AnswerRelay, PrintHandoff ''low'' ''slight head shake''),
  (AnswerRelay, PrintRobot ''I'm not entirely sure, but Start small.''),
  (AnswerRelay, Speak ''I'm not entirely sure, but Start small.''),
  (AnswerRelay, PrintGesture ''slight head shake'')]"
  by (simp add: run_def sample_plan_def answer_first_world_def failing_env_def relay_thinking_def
      Let_def THINKING_DURATION_MS_def THINKING_PAUSE_MS_def
      MAX_THINKING_CUES_def emit_line_def after_emit_def is_meaningful_thinking_cue_def strip_def
      strip_chars_def is_space_def thinking_step_def answer_relay_step_def answer_step_def
      initial_answer_task_def resolve_confidence_def estimate_confidence_from_words_def
      get_confidence_behavior_def get_legacy_behavior_def known_tier_def CONFIDENCE_BEHAVIORS_def
      with_prefix_def)

theorem answer_waits_for_barrier_witness:
  "need_thinking sample_plan
   \<and> answer_after_barrier False (run True ''q'' sample_plan answer_first_world)
   \<and> take 2 (drop 8 (run True ''q'' sample_plan answer_first_world))
       = [(ThinkingRelay, BarrierSet), (AnswerRelay, PrintHandoff ''low'' ''slight head shake'')]"
proof -
  have nt: "need_thinking sample_plan" by (simp add: sample_plan_def)
  from answer_waits_for_barrier[OF nt, of True "''q''" answer_first_world] nt show ?thesis
    by (simp add: answer_first_run)
qed

text \<open>
  Once the thinking relay has made all its steps the flag is set, whatever the streams did,
  so an answer relay that waits at the barrier goes on with its next step.
\<close>

lemma thinking_steps_set_barrier:
  "barrier (exec has_client hint wc (replicate (length (thinking s)) True) s)
     = (barrier s \<or> BarrierSet \<in> set (thinking s))"
proof (induction "thinking s" arbitrary: s)
  case Nil
  then show ?case by simp
next
  case (Cons e es)
  from Cons(2) have t: "thinking s = e # es" by simp
  have "es = thinking (thinking_step s)" using t by (simp add: thinking_step_def)
  from Cons(1)[OF this] t show ?case by (auto simp: thinking_step_def)
qed

lemma barrier_set_after_thinking:
  "barrier (exec has_client hint wc
      (replicate (length (events (snd (relay_thinking has_client env start)))) True)
      \<lparr>barrier = False, thinking = events (snd (relay_thinking has_client env start)),
       answer_relay = a, out = []\<rparr>)"
proof -
  obtain es where "events (snd (relay_thinking has_client env start)) = es @ [SetThinkingMode False, BarrierSet]"
    using relay_thinking_last by blast
  then have "BarrierSet \<in> set (events (snd (relay_thinking has_client env start)))" by simp
  then show ?thesis
    using thinking_steps_set_barrier[of has_client hint wc
        "\<lparr>barrier = False, thinking = events (snd (relay_thinking has_client env start)),
          answer_relay = a, out = []\<rparr>"]
    by simp
qed

end
